theory Spec2Isabelle
  imports
    Complex_Main
    "HOL-Library.AList"
    "HOL-Library.Char_ord"
    "HOL-Library.List_Lexorder"
    "HOL-Library.Product_Lexorder"
    "HOL-Library.Sublist"
begin

text \<open>
  A model of \<^verbatim>\<open>test_cq.py\<close>, the harness that finds the files of each Code Quest problem
  in a directory (\<^verbatim>\<open>get_cq_files\<close>), groups them by problem number
  (\<^verbatim>\<open>group_cq_files\<close>), makes one test per complete group (\<^verbatim>\<open>create_test_funcs\<close>) and,
  in each test, runs the solution and compares what it prints with the expected output
  (\<^verbatim>\<open>check_solution\<close>).

  An exception is a value of the type \<open>error\<close>, and a function that can raise returns
  \<open>error + 'a\<close>. The file system and the solution process are arguments. Logging is left
  out: \<^verbatim>\<open>log_func_decorator\<close> logs a call and raises again whatever the call raised, so
  a decorated function returns and raises as its body does. \<^verbatim>\<open>unittest.main\<close> is left
  out as well.
\<close>

section \<open>Python strings and paths\<close>

text \<open>
  A Python \<^verbatim>\<open>str\<close> is a \<^typ>\<open>string\<close>; a \<^typ>\<open>char\<close> stands for a code point
  below 256, so text with larger code points lies outside the model. The functions of this
  section are the library calls that \<^verbatim>\<open>test_cq.py\<close> makes on strings, each with the
  behaviour CPython gives it on such text.
\<close>

text \<open>\<^verbatim>\<open>s.startswith(p)\<close>\<close>

definition startswith :: "string \<Rightarrow> string \<Rightarrow> bool" where
  "startswith s p = prefix p s"

text \<open>
  \<^verbatim>\<open>s.replace(old, new)\<close>: every occurrence of \<open>old\<close>, found from the left without
  overlap, becomes \<open>new\<close>. The source calls it with the patterns \<^verbatim>\<open>'\r'\<close> and
  \<^verbatim>\<open>"in"\<close> only; the special case of an empty pattern is not modelled.
\<close>

function replace_str :: "string \<Rightarrow> string \<Rightarrow> string \<Rightarrow> string" where
  "replace_str old new [] = []"
| "replace_str old new (c # cs) =
     (if old \<noteq> [] \<and> prefix old (c # cs)
      then new @ replace_str old new (drop (length old) (c # cs))
      else c # replace_str old new cs)"
  by pat_completeness auto
termination
  by (relation "measure (\<lambda>(old, new, s). length s)") auto

text \<open>
  \<^verbatim>\<open>s.splitlines(True)\<close>: the lines of \<open>s\<close>, each with its line end. Below code point
  256, Python ends a line at \<^verbatim>\<open>\n \r \r\n \v \f \x1c \x1d \x1e \x85\<close>.
\<close>

definition line_boundary :: "char \<Rightarrow> bool" where
  "line_boundary c =
     (c \<in> set [CHR 0x0A, CHR 0x0B, CHR 0x0C, CHR 0x0D, CHR 0x1C, CHR 0x1D, CHR 0x1E, CHR 0x85])"

fun splitlines_from :: "string \<Rightarrow> string \<Rightarrow> string list" where
  "splitlines_from cur [] = (if cur = [] then [] else [cur])"
| "splitlines_from cur [c] = [cur @ [c]]"
| "splitlines_from cur (c # d # cs) =
     (if c = CHR 0x0D \<and> d = CHR 0x0A then (cur @ [c, d]) # splitlines_from [] cs
      else if line_boundary c then (cur @ [c]) # splitlines_from [] (d # cs)
      else splitlines_from (cur @ [c]) (d # cs))"

definition splitlines :: "string \<Rightarrow> string list" where
  "splitlines s = splitlines_from [] s"

text \<open>\<^verbatim>\<open>os.path.basename\<close> and \<^verbatim>\<open>os.path.dirname\<close>, as \<^verbatim>\<open>posixpath\<close> defines them.\<close>

definition basename :: "string \<Rightarrow> string" where
  "basename p = rev (takeWhile (\<lambda>c. c \<noteq> CHR ''/'') (rev p))"

definition dirname :: "string \<Rightarrow> string" where
  "dirname p =
     (let head = rev (dropWhile (\<lambda>c. c \<noteq> CHR ''/'') (rev p))
      in if head \<noteq> [] \<and> head \<noteq> replicate (length head) (CHR ''/'')
         then rev (dropWhile (\<lambda>c. c = CHR ''/'') (rev head))
         else head)"

subsection \<open>Integers and text\<close>

datatype error =
    OSError string
  | ValueError string
  | FileNotFoundError string
  | IsADirectoryError string
  | NotADirectoryError string
  | PermissionError string
  | UnicodeDecodeError
  | SameFileError string
  | FileExistsError
  | Exception string
  | StopIteration
  | AssertionError string nat string string string string

text \<open>
  \<^verbatim>\<open>int(s)\<close> for a string: white space around the number is dropped, a sign may come
  first, and the digits may be separated by single underscores. The white space that
  \<^verbatim>\<open>int\<close> accepts below code point 256 is \<^verbatim>\<open>\t \n \v \f \r\<close>, the space,
  \<^verbatim>\<open>\x85\<close> and \<^verbatim>\<open>\xa0\<close>; the only decimal digits there are \<^verbatim>\<open>0\<close> to \<^verbatim>\<open>9\<close>.
\<close>

definition is_digit :: "char \<Rightarrow> bool" where
  "is_digit c = (48 \<le> (of_char c :: nat) \<and> (of_char c :: nat) \<le> 57)"

definition digit_val :: "char \<Rightarrow> nat" where
  "digit_val c = of_char c - 48"

definition int_space :: "char \<Rightarrow> bool" where
  "int_space c =
     (c \<in> set [CHR 0x09, CHR 0x0A, CHR 0x0B, CHR 0x0C, CHR 0x0D, CHR 0x20, CHR 0x85, CHR 0xA0])"

fun int_digits :: "nat \<Rightarrow> string \<Rightarrow> nat option" where
  "int_digits acc [] = Some acc"
| "int_digits acc [c] = (if is_digit c then Some (10 * acc + digit_val c) else None)"
| "int_digits acc (c # d # cs) =
     (if is_digit c then int_digits (10 * acc + digit_val c) (d # cs)
      else if c = CHR ''_'' \<and> is_digit d then int_digits acc (d # cs)
      else None)"

definition int_unsigned :: "string \<Rightarrow> nat option" where
  "int_unsigned s = (case s of [] \<Rightarrow> None | c # _ \<Rightarrow> if is_digit c then int_digits 0 s else None)"

definition py_int :: "string \<Rightarrow> error + int" where
  "py_int s =
     (let t = rev (dropWhile int_space (rev (dropWhile int_space s)));
          r = (case t of
                 [] \<Rightarrow> None
               | c # cs \<Rightarrow>
                   if c = CHR ''-'' then map_option (\<lambda>n. - int n) (int_unsigned cs)
                   else if c = CHR ''+'' then map_option int (int_unsigned cs)
                   else map_option int (int_unsigned t))
      in case r of None \<Rightarrow> Inl (ValueError s) | Some v \<Rightarrow> Inr v)"

text \<open>\<^verbatim>\<open>str(n)\<close> for \<open>n \<ge> 0\<close>, and \<^verbatim>\<open>"{:02d}".format(n)\<close>.\<close>

definition digit_char :: "nat \<Rightarrow> char" where
  "digit_char n = ''0123456789'' ! n"

fun str_nat :: "nat \<Rightarrow> string" where
  "str_nat n = (if n < 10 then [digit_char n] else str_nat (n div 10) @ [digit_char (n mod 10)])"

definition format_02d :: "int \<Rightarrow> string" where
  "format_02d n =
     (if n < 0 then CHR ''-'' # str_nat (nat (- n))
      else if n < 10 then CHR ''0'' # str_nat (nat n)
      else str_nat (nat n))"

section \<open>Regular expressions\<close>

text \<open>
  The fragment of Python's \<^verbatim>\<open>re\<close> syntax that \<^verbatim>\<open>REGEX_PATTERN\<close> uses: literal text, a
  character range, sequence, alternative and a fixed count (defined from sequence). \<open>rmatch r s\<close> lists what is
  left of \<open>s\<close> after each way of matching \<open>r\<close> at its start, in the order backtracking
  tries them. \<^verbatim>\<open>re.match\<close> succeeds when there is such a way: the pattern is anchored at
  the start of the string and not at its end.
\<close>

datatype regex =
    Lit string
  | Range char char
  | Seq regex regex
  | Alt regex regex

fun rmatch :: "regex \<Rightarrow> string \<Rightarrow> string list" where
  "rmatch (Lit l) s = (if prefix l s then [drop (length l) s] else [])"
| "rmatch (Range lo hi) s =
     (case s of
        [] \<Rightarrow> []
      | c # cs \<Rightarrow> if (of_char lo :: nat) \<le> of_char c \<and> (of_char c :: nat) \<le> of_char hi then [cs] else [])"
| "rmatch (Seq r1 r2) s = concat (map (rmatch r2) (rmatch r1 s))"
| "rmatch (Alt r1 r2) s = rmatch r1 s @ rmatch r2 s"

text \<open>The fixed count \<^verbatim>\<open>r{n}\<close> is \<open>n\<close> copies of \<open>r\<close> in sequence.\<close>

fun rep :: "nat \<Rightarrow> regex \<Rightarrow> regex" where
  "rep 0 r = Lit []"
| "rep (Suc n) r = Seq r (rep n r)"

definition re_match :: "regex \<Rightarrow> string \<Rightarrow> bool" where
  "re_match r s = (rmatch r s \<noteq> [])"

text \<open>\<^verbatim>\<open>REGEX_PATTERN = "Prob[0-9]{2}\.((in|out)\.txt|py)"\<close>\<close>

definition REGEX_PATTERN :: regex where
  "REGEX_PATTERN =
     Seq (Lit ''Prob'')
       (Seq (rep 2 (Range (CHR ''0'') (CHR ''9'')))
          (Seq (Lit ''.'')
             (Alt (Seq (Alt (Lit ''in'') (Lit ''out'')) (Lit ''.txt'')) (Lit ''py''))))"

section \<open>The file system\<close>

text \<open>
  A file system maps a path to what is there: a regular file with the text that reading it
  in text mode returns, a directory with the names \<^verbatim>\<open>os.listdir\<close> returns for it, or a
  directory that the process may not list (\<open>Locked\<close>), on which \<^verbatim>\<open>os.listdir\<close> raises
  \<^verbatim>\<open>PermissionError\<close>. Paths are compared as strings; links, the other permissions and
  encodings are not modelled.
\<close>

datatype node = File string | Dir "string list" | Locked

type_synonym fsys = "string \<Rightarrow> node option"

definition path_exists :: "fsys \<Rightarrow> string \<Rightarrow> bool" where
  "path_exists fs p = (fs p \<noteq> None)"

definition isdir :: "fsys \<Rightarrow> string \<Rightarrow> bool" where
  "isdir fs p = (case fs p of Some (Dir es) \<Rightarrow> True | Some Locked \<Rightarrow> True | _ \<Rightarrow> False)"

definition listdir :: "fsys \<Rightarrow> string \<Rightarrow> error + string list" where
  "listdir fs p =
     (case fs p of
        Some (Dir es) \<Rightarrow> Inr es
      | Some Locked \<Rightarrow> Inl (PermissionError p)
      | Some (File t) \<Rightarrow> Inl (NotADirectoryError p)
      | None \<Rightarrow> Inl (FileNotFoundError p))"

text \<open>
  A path that leads through a regular file cannot be opened: \<open>ancestors p\<close> are the
  parts of \<open>p\<close> before each of its slashes, and \<open>below_file fs p\<close> says that one of
  them is a regular file. \<^verbatim>\<open>open\<close> then raises \<^verbatim>\<open>NotADirectoryError\<close>.
\<close>

definition ancestors :: "string \<Rightarrow> string list" where
  "ancestors p = map (\<lambda>i. take i p) (filter (\<lambda>i. 0 < i \<and> p ! i = CHR ''/'') [0..<length p])"

definition below_file :: "fsys \<Rightarrow> string \<Rightarrow> bool" where
  "below_file fs p =
     list_ex (\<lambda>q. case fs q of Some (File t) \<Rightarrow> True | _ \<Rightarrow> False) (ancestors p)"

section \<open>Discovery\<close>

text \<open>
  \<^verbatim>\<open>get_cq_files\<close>: the names in \<open>target_dir\<close> that \<^verbatim>\<open>reg_pattern.match\<close> accepts, as a
  set. \<open>match_loop\<close> is the loop over the listing.
\<close>

fun match_loop :: "string list \<Rightarrow> string set \<Rightarrow> string set" where
  "match_loop [] matched = matched"
| "match_loop (f # fs) matched =
     (if re_match REGEX_PATTERN f then match_loop fs (insert f matched)
      else match_loop fs matched)"

definition get_cq_files :: "fsys \<Rightarrow> string \<Rightarrow> error + string set" where
  "get_cq_files fs target_dir =
     (if \<not> (path_exists fs target_dir \<and> isdir fs target_dir) then Inl (OSError target_dir)
      else case listdir fs target_dir of
             Inl e \<Rightarrow> Inl e
           | Inr names \<Rightarrow> Inr (match_loop names {}))"

section \<open>Grouping\<close>

text \<open>
  \<^verbatim>\<open>group_cq_files\<close>: the dictionary \<open>grouped\<close> is an association list in insertion order
  with distinct keys. \<^verbatim>\<open>grouped.get(n).append(f)\<close> raises when the key is missing, and
  the \<^verbatim>\<open>except\<close> branch then adds the key.
\<close>

definition get_prob_num :: "string \<Rightarrow> string" where
  "get_prob_num x = take 2 (drop 4 (basename x))"

fun group_loop :: "string list \<Rightarrow> (int \<times> string list) list \<Rightarrow> error + (int \<times> string list) list" where
  "group_loop [] grouped = Inr grouped"
| "group_loop (cq_file # rest) grouped =
     (case py_int (get_prob_num cq_file) of
        Inl e \<Rightarrow> Inl e
      | Inr prob_num \<Rightarrow>
          (case map_of grouped prob_num of
             Some l \<Rightarrow> group_loop rest (AList.update prob_num (l @ [cq_file]) grouped)
           | None \<Rightarrow> group_loop rest (grouped @ [(prob_num, [cq_file])])))"

definition group_cq_files :: "string list \<Rightarrow> error + (int \<times> string list) list" where
  "group_cq_files cq_files = group_loop cq_files []"

section \<open>The line differ\<close>

text \<open>
  \<^verbatim>\<open>difflib.Differ().compare(a, b)\<close>, as CPython 3.11 defines it. \<^verbatim>\<open>Differ()\<close> is
  built with \<^verbatim>\<open>linejunk=None\<close> and \<^verbatim>\<open>charjunk=None\<close>, so no element is junk: the set
  \<^verbatim>\<open>bjunk\<close> is empty, the two loops of \<^verbatim>\<open>find_longest_match\<close> that extend a match over
  junk never run, and only the rule for popular elements (\<^verbatim>\<open>autojunk\<close>) removes keys of
  \<^verbatim>\<open>b2j\<close>. The similarity ratios are exact rationals where Python computes floats. The
  generator \<^verbatim>\<open>compare\<close> is the list of what it yields.
\<close>

subsection \<open>\<^verbatim>\<open>SequenceMatcher\<close>\<close>

type_synonym match = "nat \<times> nat \<times> nat"

text \<open>
  \<^verbatim>\<open>__chain_b\<close>: \<open>b2j b elt\<close> lists in ascending order where \<open>elt\<close> stands in \<open>b\<close>,
  unless \<open>b\<close> has 200 elements or more and \<open>elt\<close> fills more than one hundredth of
  it plus one.
\<close>

definition popular :: "'a list \<Rightarrow> 'a \<Rightarrow> bool" where
  "popular b elt = (200 \<le> length b \<and> length b div 100 + 1 < count_list b elt)"

definition b2j :: "'a list \<Rightarrow> 'a \<Rightarrow> nat list" where
  "b2j b elt = (if popular b elt then [] else [j \<leftarrow> [0..<length b]. b ! j = elt])"

text \<open>
  \<^verbatim>\<open>find_longest_match\<close>. \<open>j2len_get j2len j\<close> is \<^verbatim>\<open>j2len.get(j-1, 0)\<close>; the key
  \<open>-1\<close> is never present. \<open>j_loop\<close> is the loop over \<^verbatim>\<open>b2j.get(a[i], nothing)\<close> with
  its \<^verbatim>\<open>continue\<close> and \<^verbatim>\<open>break\<close>, \<open>i_loop\<close> the loop over \<^verbatim>\<open>range(alo, ahi)\<close>,
  and \<open>extend_left\<close>, \<open>extend_right\<close> the two loops that extend the match.
\<close>

definition j2len_get :: "(nat \<Rightarrow> nat option) \<Rightarrow> nat \<Rightarrow> nat" where
  "j2len_get j2len j =
     (case j of 0 \<Rightarrow> 0 | Suc j' \<Rightarrow> (case j2len j' of None \<Rightarrow> 0 | Some v \<Rightarrow> v))"

fun j_loop ::
  "nat \<Rightarrow> nat \<Rightarrow> nat \<Rightarrow> (nat \<Rightarrow> nat option) \<Rightarrow> nat list \<Rightarrow> (nat \<Rightarrow> nat option) \<times> match
     \<Rightarrow> (nat \<Rightarrow> nat option) \<times> match" where
  "j_loop blo bhi i j2len [] st = st"
| "j_loop blo bhi i j2len (j # js) (newj2len, besti, bestj, bestsize) =
     (if j < blo then j_loop blo bhi i j2len js (newj2len, besti, bestj, bestsize)
      else if bhi \<le> j then (newj2len, besti, bestj, bestsize)
      else
        let k = j2len_get j2len j + 1
        in j_loop blo bhi i j2len js
             (newj2len(j \<mapsto> k),
              if bestsize < k then (i + 1 - k, j + 1 - k, k) else (besti, bestj, bestsize)))"

fun i_loop ::
  "'a list \<Rightarrow> 'a list \<Rightarrow> nat \<Rightarrow> nat \<Rightarrow> nat list \<Rightarrow> (nat \<Rightarrow> nat option) \<times> match \<Rightarrow> match" where
  "i_loop a b blo bhi [] (j2len, best) = best"
| "i_loop a b blo bhi (i # is) (j2len, best) =
     i_loop a b blo bhi is (j_loop blo bhi i j2len (b2j b (a ! i)) (Map.empty, best))"

function extend_left :: "'a list \<Rightarrow> 'a list \<Rightarrow> nat \<Rightarrow> nat \<Rightarrow> match \<Rightarrow> match" where
  "extend_left a b alo blo (besti, bestj, bestsize) =
     (if alo < besti \<and> blo < bestj \<and> a ! (besti - 1) = b ! (bestj - 1)
      then extend_left a b alo blo (besti - 1, bestj - 1, bestsize + 1)
      else (besti, bestj, bestsize))"
  by pat_completeness auto
termination
  by (relation "measure (\<lambda>(a, b, alo, blo, besti, bestj, bestsize). besti)") auto

function extend_right :: "'a list \<Rightarrow> 'a list \<Rightarrow> nat \<Rightarrow> nat \<Rightarrow> match \<Rightarrow> match" where
  "extend_right a b ahi bhi (besti, bestj, bestsize) =
     (if besti + bestsize < ahi \<and> bestj + bestsize < bhi \<and> a ! (besti + bestsize) = b ! (bestj + bestsize)
      then extend_right a b ahi bhi (besti, bestj, bestsize + 1)
      else (besti, bestj, bestsize))"
  by pat_completeness auto
termination
  by (relation "measure (\<lambda>(a, b, ahi, bhi, besti, bestj, bestsize). ahi - (besti + bestsize))") auto

definition find_longest_match :: "'a list \<Rightarrow> 'a list \<Rightarrow> nat \<Rightarrow> nat \<Rightarrow> nat \<Rightarrow> nat \<Rightarrow> match" where
  "find_longest_match a b alo ahi blo bhi =
     extend_right a b ahi bhi
       (extend_left a b alo blo (i_loop a b blo bhi [alo..<ahi] (Map.empty, (alo, blo, 0))))"

text \<open>
  \<^verbatim>\<open>get_matching_blocks\<close>: \<open>mb_loop\<close> is the loop over \<^verbatim>\<open>queue\<close>, a stack held with
  its top first (Python pops and pushes at the end of its list).
\<close>

function mb_loop :: "'a list \<Rightarrow> 'a list \<Rightarrow> (nat \<times> nat \<times> nat \<times> nat) list \<Rightarrow> match list \<Rightarrow> match list" where
  "mb_loop a b [] matching_blocks = matching_blocks"
| "mb_loop a b ((alo, ahi, blo, bhi) # queue) matching_blocks =
     (case find_longest_match a b alo ahi blo bhi of
        (i, j, k) \<Rightarrow>
          if k \<noteq> 0
          then mb_loop a b
                 ((if i + k < ahi \<and> j + k < bhi then [(i + k, ahi, j + k, bhi)] else [])
                   @ (if alo < i \<and> blo < j then [(alo, i, blo, j)] else []) @ queue)
                 (matching_blocks @ [(i, j, k)])
          else mb_loop a b queue matching_blocks)"
  by pat_completeness auto
fun collapse :: "match \<Rightarrow> match list \<Rightarrow> match list" where
  "collapse (i1, j1, k1) [] = (if k1 \<noteq> 0 then [(i1, j1, k1)] else [])"
| "collapse (i1, j1, k1) ((i2, j2, k2) # rest) =
     (if i1 + k1 = i2 \<and> j1 + k1 = j2 then collapse (i1, j1, k1 + k2) rest
      else (if k1 \<noteq> 0 then [(i1, j1, k1)] else []) @ collapse (i2, j2, k2) rest)"

definition get_matching_blocks :: "'a list \<Rightarrow> 'a list \<Rightarrow> match list" where
  "get_matching_blocks a b =
     collapse (0, 0, 0) (sort (mb_loop a b [(0, length a, 0, length b)] []))
       @ [(length a, length b, 0)]"

text \<open>\<^verbatim>\<open>get_opcodes\<close>\<close>

datatype tag = Replace | Delete | Insert | Equal

fun opcodes_loop :: "nat \<Rightarrow> nat \<Rightarrow> match list \<Rightarrow> (tag \<times> nat \<times> nat \<times> nat \<times> nat) list" where
  "opcodes_loop i j [] = []"
| "opcodes_loop i j ((ai, bj, sz) # rest) =
     (if i < ai \<and> j < bj then [(Replace, i, ai, j, bj)]
      else if i < ai then [(Delete, i, ai, j, bj)]
      else if j < bj then [(Insert, i, ai, j, bj)]
      else [])
     @ (if sz \<noteq> 0 then [(Equal, ai, ai + sz, bj, bj + sz)] else [])
     @ opcodes_loop (ai + sz) (bj + sz) rest"

definition get_opcodes :: "'a list \<Rightarrow> 'a list \<Rightarrow> (tag \<times> nat \<times> nat \<times> nat \<times> nat) list" where
  "get_opcodes a b = opcodes_loop 0 0 (get_matching_blocks a b)"

text \<open>\<^verbatim>\<open>ratio\<close>, \<^verbatim>\<open>quick_ratio\<close> and \<^verbatim>\<open>real_quick_ratio\<close>\<close>

definition calculate_ratio :: "nat \<Rightarrow> nat \<Rightarrow> rat" where
  "calculate_ratio matches len = (if len \<noteq> 0 then 2 * of_nat matches / of_nat len else 1)"

definition ratio :: "'a list \<Rightarrow> 'a list \<Rightarrow> rat" where
  "ratio a b =
     calculate_ratio (sum_list (map (\<lambda>(i, j, k). k) (get_matching_blocks a b))) (length a + length b)"

fun quick_loop :: "('a \<Rightarrow> nat) \<Rightarrow> 'a list \<Rightarrow> ('a \<Rightarrow> int option) \<Rightarrow> nat \<Rightarrow> nat" where
  "quick_loop fullbcount [] avail matches = matches"
| "quick_loop fullbcount (elt # rest) avail matches =
     (let numb = (case avail elt of Some v \<Rightarrow> v | None \<Rightarrow> int (fullbcount elt))
      in quick_loop fullbcount rest (avail(elt \<mapsto> numb - 1))
           (if 0 < numb then matches + 1 else matches))"

definition quick_ratio :: "'a list \<Rightarrow> 'a list \<Rightarrow> rat" where
  "quick_ratio a b = calculate_ratio (quick_loop (count_list b) a Map.empty 0) (length a + length b)"

definition real_quick_ratio :: "'a list \<Rightarrow> 'a list \<Rightarrow> rat" where
  "real_quick_ratio a b = calculate_ratio (min (length a) (length b)) (length a + length b)"

subsection \<open>\<^verbatim>\<open>Differ\<close>\<close>

text \<open>
  \<^verbatim>\<open>_dump\<close> and \<^verbatim>\<open>_plain_replace\<close>. The assertion of \<^verbatim>\<open>_plain_replace\<close> holds at its
  only call, which \<^verbatim>\<open>_fancy_replace\<close> makes on two windows that are not empty.
\<close>

definition dump :: "string \<Rightarrow> string list \<Rightarrow> nat \<Rightarrow> nat \<Rightarrow> string list" where
  "dump tg x lo hi = map (\<lambda>i. tg @ '' '' @ x ! i) [lo..<hi]"

definition plain_replace :: "string list \<Rightarrow> nat \<Rightarrow> nat \<Rightarrow> string list \<Rightarrow> nat \<Rightarrow> nat \<Rightarrow> string list" where
  "plain_replace a alo ahi b blo bhi =
     (if bhi - blo < ahi - alo then dump ''+'' b blo bhi @ dump ''-'' a alo ahi
      else dump ''-'' a alo ahi @ dump ''+'' b blo bhi)"

text \<open>
  The search of \<^verbatim>\<open>_fancy_replace\<close> for the pair of lines to synchronise on: the state is
  \<^verbatim>\<open>best_ratio\<close>, the pair \<^verbatim>\<open>(best_i, best_j)\<close> once it is assigned, and the pair
  \<^verbatim>\<open>(eqi, eqj)\<close> once it is not \<^verbatim>\<open>None\<close>.
\<close>

type_synonym search = "rat \<times> (nat \<times> nat) option \<times> (nat \<times> nat) option"

fun search_i :: "string list \<Rightarrow> string \<Rightarrow> nat \<Rightarrow> nat list \<Rightarrow> search \<Rightarrow> search" where
  "search_i a bj j [] st = st"
| "search_i a bj j (i # is) (best_ratio, best, eq) =
     (if a ! i = bj then search_i a bj j is (best_ratio, best, if eq = None then Some (i, j) else eq)
      else if best_ratio < real_quick_ratio (a ! i) bj \<and> best_ratio < quick_ratio (a ! i) bj
              \<and> best_ratio < ratio (a ! i) bj
      then search_i a bj j is (ratio (a ! i) bj, Some (i, j), eq)
      else search_i a bj j is (best_ratio, best, eq))"

fun search_j :: "string list \<Rightarrow> string list \<Rightarrow> nat \<Rightarrow> nat \<Rightarrow> nat list \<Rightarrow> search \<Rightarrow> search" where
  "search_j a b alo ahi [] st = st"
| "search_j a b alo ahi (j # js) st = search_j a b alo ahi js (search_i a (b ! j) j [alo..<ahi] st)"

text \<open>
  \<^verbatim>\<open>_qformat\<close> with \<^verbatim>\<open>_keep_original_ws\<close>; \<open>py_isspace\<close> is \<^verbatim>\<open>str.isspace\<close> on one
  character, which also decides what \<^verbatim>\<open>rstrip()\<close> drops. \<open>tags_loop\<close> builds
  \<^verbatim>\<open>atags\<close> and \<^verbatim>\<open>btags\<close> from the opcodes of the two lines.
\<close>

definition py_isspace :: "char \<Rightarrow> bool" where
  "py_isspace c =
     (c \<in> set [CHR 0x09, CHR 0x0A, CHR 0x0B, CHR 0x0C, CHR 0x0D, CHR 0x1C, CHR 0x1D, CHR 0x1E,
               CHR 0x1F, CHR 0x20, CHR 0x85, CHR 0xA0])"

definition keep_original_ws :: "string \<Rightarrow> string \<Rightarrow> string" where
  "keep_original_ws s tag_s =
     map (\<lambda>(c, tag_c). if tag_c = CHR '' '' \<and> py_isspace c then c else tag_c) (zip s tag_s)"

definition rstrip :: "string \<Rightarrow> string" where
  "rstrip s = rev (dropWhile py_isspace (rev s))"

definition qformat :: "string \<Rightarrow> string \<Rightarrow> string \<Rightarrow> string \<Rightarrow> string list" where
  "qformat aline bline atags btags =
     (let atags = rstrip (keep_original_ws aline atags);
          btags = rstrip (keep_original_ws bline btags)
      in [''- '' @ aline] @ (if atags \<noteq> [] then [''? '' @ atags @ [CHR 0x0A]] else [])
         @ [''+ '' @ bline] @ (if btags \<noteq> [] then [''? '' @ btags @ [CHR 0x0A]] else []))"

fun tags_loop :: "(tag \<times> nat \<times> nat \<times> nat \<times> nat) list \<Rightarrow> string \<times> string \<Rightarrow> string \<times> string" where
  "tags_loop [] (atags, btags) = (atags, btags)"
| "tags_loop ((tg, ai1, ai2, bj1, bj2) # rest) (atags, btags) =
     (let la = ai2 - ai1; lb = bj2 - bj1
      in tags_loop rest
           (case tg of
              Replace \<Rightarrow> (atags @ replicate la (CHR ''^''), btags @ replicate lb (CHR ''^''))
            | Delete \<Rightarrow> (atags @ replicate la (CHR ''-''), btags)
            | Insert \<Rightarrow> (atags, btags @ replicate lb (CHR ''+''))
            | Equal \<Rightarrow> (atags @ replicate la (CHR '' ''), btags @ replicate lb (CHR '' ''))))"

text \<open>
  \<^verbatim>\<open>_fancy_replace\<close> and \<^verbatim>\<open>_fancy_helper\<close>. With \<^verbatim>\<open>best_ratio\<close> at the cutoff or
  above, \<^verbatim>\<open>best_i\<close> and \<^verbatim>\<open>best_j\<close> are assigned; the branch for \<open>None\<close> is never taken.
\<close>

function fancy_replace :: "string list \<Rightarrow> nat \<Rightarrow> nat \<Rightarrow> string list \<Rightarrow> nat \<Rightarrow> nat \<Rightarrow> string list"
  and fancy_helper :: "string list \<Rightarrow> nat \<Rightarrow> nat \<Rightarrow> string list \<Rightarrow> nat \<Rightarrow> nat \<Rightarrow> string list" where
  "fancy_replace a alo ahi b blo bhi =
     (case search_j a b alo ahi [blo..<bhi] (74 / 100, None, None) of
        (best_ratio, best, eq) \<Rightarrow>
          if best_ratio < 75 / 100 then
            (case eq of
               None \<Rightarrow> plain_replace a alo ahi b blo bhi
             | Some (eqi, eqj) \<Rightarrow>
                 fancy_helper a alo eqi b blo eqj @ [''  '' @ a ! eqi]
                   @ fancy_helper a (eqi + 1) ahi b (eqj + 1) bhi)
          else
            (case best of
               None \<Rightarrow> []
             | Some (best_i, best_j) \<Rightarrow>
                 fancy_helper a alo best_i b blo best_j
                   @ (case tags_loop (get_opcodes (a ! best_i) (b ! best_j)) ([], []) of
                        (atags, btags) \<Rightarrow> qformat (a ! best_i) (b ! best_j) atags btags)
                   @ fancy_helper a (best_i + 1) ahi b (best_j + 1) bhi))"
| "fancy_helper a alo ahi b blo bhi =
     (if alo < ahi then
        (if blo < bhi then fancy_replace a alo ahi b blo bhi else dump ''-'' a alo ahi)
      else if blo < bhi then dump ''+'' b blo bhi
      else [])"
  by pat_completeness auto
text \<open>\<^verbatim>\<open>Differ.compare\<close>\<close>

definition compare :: "string list \<Rightarrow> string list \<Rightarrow> string list" where
  "compare a b =
     concat (map (\<lambda>(tg, alo, ahi, blo, bhi).
                    case tg of
                      Replace \<Rightarrow> fancy_replace a alo ahi b blo bhi
                    | Delete \<Rightarrow> dump ''-'' a alo ahi
                    | Insert \<Rightarrow> dump ''+'' b blo bhi
                    | Equal \<Rightarrow> dump '' '' a alo ahi)
               (get_opcodes a b))"

section \<open>The verifier\<close>

text \<open>
  The world that \<^verbatim>\<open>check_solution\<close> acts on: the file system, the names that
  \<^verbatim>\<open>tempfile\<close> will try for its next directories, and the record of what the function has
  done so far (directories listed, made and removed, processes started, files written).
  The environment holds \<^verbatim>\<open>sys.executable\<close> and the solution process: given the file
  system and the shell command, the bytes of its standard output and of its standard
  error. What the process itself does to the file system is not modelled.

  The bytes of a stream are kept up to what \<^verbatim>\<open>decode('utf-8')\<close> makes of them: they
  are the UTF-8 encoding of a text, and then of that text only, or they are malformed and
  \<^verbatim>\<open>decode\<close> raises \<^verbatim>\<open>UnicodeDecodeError\<close>.
\<close>

datatype bytes = Encoded string | Malformed

definition decode :: "bytes \<Rightarrow> error + string" where
  "decode b = (case b of Encoded t \<Rightarrow> Inr t | Malformed \<Rightarrow> Inl UnicodeDecodeError)"

datatype event = MkTemp string | RmTemp string | Spawn string | WriteFile string | ListDir string

record world =
  files :: fsys
  temp_names :: "string list"
  events :: "event list"

record env =
  executable :: string
  proc :: "fsys \<Rightarrow> string \<Rightarrow> bytes \<times> bytes"

text \<open>\<^verbatim>\<open>open(p, 'r').read()\<close>, and \<^verbatim>\<open>open(p, 'w')\<close> followed by one \<^verbatim>\<open>write\<close>.\<close>

definition open_read :: "fsys \<Rightarrow> string \<Rightarrow> error + string" where
  "open_read fs p =
     (if below_file fs p then Inl (NotADirectoryError p)
      else case fs p of
             None \<Rightarrow> Inl (FileNotFoundError p)
           | Some (Dir es) \<Rightarrow> Inl (IsADirectoryError p)
           | Some Locked \<Rightarrow> Inl (PermissionError p)
           | Some (File t) \<Rightarrow> Inr t)"

definition open_write :: "fsys \<Rightarrow> string \<Rightarrow> string \<Rightarrow> error + fsys" where
  "open_write fs p t =
     (if below_file fs p then Inl (NotADirectoryError p)
      else case fs p of
             Some (Dir es) \<Rightarrow> Inl (IsADirectoryError p)
           | Some Locked \<Rightarrow> Inl (IsADirectoryError p)
           | _ \<Rightarrow>
               if dirname p \<noteq> [] \<and> \<not> isdir fs (dirname p) then Inl (FileNotFoundError p)
               else Inr (fs(p \<mapsto> File t)))"

text \<open>
  \<^verbatim>\<open>tempfile.mkdtemp\<close> tries candidate names until one does not exist yet and gives up
  with \<^verbatim>\<open>FileExistsError\<close> when it runs out of them. \<^verbatim>\<open>shutil.copyfile(src, dst)\<close>
  opens \<open>src\<close> for reading and \<open>dst\<close> for writing. \<open>rmtree\<close> is the cleanup of a
  \<^verbatim>\<open>TemporaryDirectory\<close>.
\<close>

fun mkdtemp :: "fsys \<Rightarrow> string list \<Rightarrow> error + (string \<times> fsys \<times> string list)" where
  "mkdtemp fs [] = Inl FileExistsError"
| "mkdtemp fs (n # ns) =
     (if fs n \<noteq> None then mkdtemp fs ns else Inr (n, fs(n \<mapsto> Dir []), ns))"

definition copyfile :: "fsys \<Rightarrow> string \<Rightarrow> string \<Rightarrow> error + fsys" where
  "copyfile fs src dst =
     (if src = dst then Inl (SameFileError src)
      else case open_read fs src of
             Inl e \<Rightarrow> Inl e
           | Inr t \<Rightarrow> open_write fs dst t)"

definition rmtree :: "fsys \<Rightarrow> string \<Rightarrow> fsys" where
  "rmtree fs d = (\<lambda>p. if p = d \<or> prefix (d @ ''/'') p then None else fs p)"

text \<open>\<^verbatim>\<open>f.read().replace('\r', '').splitlines(True)\<close> on the file at \<open>file\<close>.\<close>

definition read_lines :: "fsys \<Rightarrow> string \<Rightarrow> error + string list" where
  "read_lines fs file =
     (case open_read fs file of
        Inl e \<Rightarrow> Inl e
      | Inr t \<Rightarrow> Inr (splitlines (replace_str [CHR 0x0D] [] t)))"

text \<open>
  The branch of \<^verbatim>\<open>check_solution\<close> for an input file and a solution file in different
  directories. It returns the new \<^verbatim>\<open>in_file\<close> and \<^verbatim>\<open>solution_file\<close>. The directory
  \<^verbatim>\<open>tmpdirname\<close> is removed where the \<^verbatim>\<open>with\<close> block ends, also when an exception ends
  it. The object \<^verbatim>\<open>tmpdir\<close> is never used again; Python removes its directory when it
  collects the object, which is no step of this function.
\<close>

definition stage :: "world \<Rightarrow> string \<Rightarrow> string \<Rightarrow> string \<Rightarrow> (error + string \<times> string) \<times> world" where
  "stage w in_file out_file solution_file =
     (case mkdtemp (files w) (temp_names w) of
        Inl e \<Rightarrow> (Inl e, w)
      | Inr (tmpdir, fs1, ns1) \<Rightarrow>
          let w1 = w\<lparr>files := fs1, temp_names := ns1, events := events w @ [MkTemp tmpdir]\<rparr>
          in (case mkdtemp fs1 ns1 of
                Inl e \<Rightarrow> (Inl e, w1)
              | Inr (tmpdirname, fs2, ns2) \<Rightarrow>
                  let w2 = w1\<lparr>temp_names := ns2, events := events w1 @ [MkTemp tmpdirname]\<rparr>;
                      leave = (\<lambda>fs. w2\<lparr>files := rmtree fs tmpdirname,
                                          events := events w2 @ [RmTemp tmpdirname]\<rparr>)
                  in (case copyfile fs2 in_file tmpdirname of
                        Inl e \<Rightarrow> (Inl e, leave fs2)
                      | Inr fs3 \<Rightarrow>
                          (case copyfile fs3 out_file tmpdirname of
                             Inl e \<Rightarrow> (Inl e, leave fs3)
                           | Inr fs4 \<Rightarrow>
                               (Inr (basename in_file @ ''/'' @ tmpdirname,
                                     basename solution_file @ ''/'' @ tmpdirname),
                                leave fs4)))))"

text \<open>
  The loop over \<^verbatim>\<open>enumerate(diffs, 1)\<close>. At the first entry that does not start with a
  space it writes the output to \<^verbatim>\<open>error_file\<close> and builds the \<^verbatim>\<open>AssertionError\<close>, whose
  arguments take two more entries from \<^verbatim>\<open>diffs\<close> (here \<open>dfs\<close>) with \<^verbatim>\<open>next\<close>; \<^verbatim>\<open>next\<close> raises
  \<^verbatim>\<open>StopIteration\<close> on an exhausted generator. The error carries the values that the
  message is formatted from: the solution's name, the line number, the entry, the two
  entries after it with \<^verbatim>\<open>^\<close> for each space, and the path written.
\<close>

fun diff_loop ::
  "world \<Rightarrow> string \<Rightarrow> string \<Rightarrow> string list \<Rightarrow> nat \<Rightarrow> string list \<Rightarrow> (error + unit) \<times> world" where
  "diff_loop w in_file solution_file out line_no [] = (Inr (), w)"
| "diff_loop w in_file solution_file out line_no (diff # dfs) =
     (if \<not> startswith diff '' '' then
        (let error_file = replace_str ''in'' ''error'' in_file
         in case open_write (files w) error_file (concat out) of
              Inl e \<Rightarrow> (Inl e, w)
            | Inr fs' \<Rightarrow>
                let w' = w\<lparr>files := fs', events := events w @ [WriteFile error_file]\<rparr>
                in (case dfs of
                      d1 # d2 # rest \<Rightarrow>
                        (Inl (AssertionError (basename solution_file) line_no diff
                                (replace_str '' '' ''^'' d1) (replace_str '' '' ''^'' d2) error_file),
                         w')
                    | _ \<Rightarrow> (Inl StopIteration, w')))
      else diff_loop w in_file solution_file out (line_no + 1) dfs)"

text \<open>The shell command \<^verbatim>\<open>'"{}" {}'.format(path_to_python, solution_file)\<close>.\<close>

definition command :: "env \<Rightarrow> string \<Rightarrow> string" where
  "command e solution_file = [CHR 0x22] @ executable e @ [CHR 0x22] @ '' '' @ solution_file"

text \<open>
  \<^verbatim>\<open>check_solution\<close> from \<^verbatim>\<open>subprocess.Popen\<close> on. The generator expression over
  \<^verbatim>\<open>p.communicate()\<close> decodes the standard output first and the standard error second,
  both before the length of the error text is tested.
\<close>

definition run_solution :: "env \<Rightarrow> world \<Rightarrow> string \<Rightarrow> string \<Rightarrow> string list \<Rightarrow> (error + unit) \<times> world" where
  "run_solution e w in_file solution_file expected_out =
     (case proc e (files w) (command e solution_file) of
        (out_bytes, err_bytes) \<Rightarrow>
          let w1 = w\<lparr>events := events w @ [Spawn (command e solution_file)]\<rparr>
          in (case decode out_bytes of
                Inl x \<Rightarrow> (Inl x, w1)
              | Inr out \<Rightarrow>
                  (case decode err_bytes of
                     Inl x \<Rightarrow> (Inl x, w1)
                   | Inr err \<Rightarrow>
                       if length err \<noteq> 0
                       then (Inl (Exception (''An error occurred while executing '' @ [CHR 0x27]
                                   @ basename solution_file @ [CHR 0x27] @ '': '' @ [CHR 0x27] @ err
                                   @ [CHR 0x27])),
                             w1)
                       else
                         let out = splitlines (replace_str [CHR 0x0D] [] out)
                         in diff_loop w1 in_file solution_file out 1 (compare out expected_out))))"

definition check_solution ::
  "env \<Rightarrow> world \<Rightarrow> string \<Rightarrow> string \<Rightarrow> string \<Rightarrow> (error + unit) \<times> world" where
  "check_solution e w in_file out_file solution_file =
     (case read_lines (files w) in_file of
        Inl x \<Rightarrow> (Inl x, w)
      | Inr in_contents \<Rightarrow>
          (case read_lines (files w) out_file of
             Inl x \<Rightarrow> (Inl x, w)
           | Inr expected_out \<Rightarrow>
               if dirname in_file \<noteq> dirname solution_file then
                 (case stage w in_file out_file solution_file of
                    (Inl x, w') \<Rightarrow> (Inl x, w')
                  | (Inr (in_file', solution_file'), w') \<Rightarrow>
                      run_solution e w' in_file' solution_file' expected_out)
               else run_solution e w in_file solution_file expected_out))"

section \<open>Discovery and the world\<close>

text \<open>
  \<^verbatim>\<open>get_cq_files\<close> once more, now with what it does to the world: it asks whether the
  path exists and is a directory, and then lists it. Listing is recorded; nothing is
  written to the file system. The records that the function sends to the logger are left
  out here as everywhere. The result is that of \<open>get_cq_files\<close> above.
\<close>

definition get_cq_files_io :: "world \<Rightarrow> string \<Rightarrow> (error + string set) \<times> world" where
  "get_cq_files_io w target_dir =
     (if \<not> (path_exists (files w) target_dir \<and> isdir (files w) target_dir)
      then (Inl (OSError target_dir), w)
      else
        let w1 = w\<lparr>events := events w @ [ListDir target_dir]\<rparr>
        in case listdir (files w) target_dir of
             Inl e \<Rightarrow> (Inl e, w1)
           | Inr names \<Rightarrow> (Inr (match_loop names {}), w1))"

section \<open>The orchestrator\<close>

text \<open>
  \<^verbatim>\<open>create_test_funcs\<close> sets one attribute of the class \<^verbatim>\<open>TestSolutions\<close> per group of
  three files. The class is modelled by the map from an attribute's name to the file list
  its method is bound to; running the method calls \<^verbatim>\<open>check_solution\<close> on that list.
\<close>

fun create_test_funcs ::
  "(int \<times> string list) list \<Rightarrow> (string \<Rightarrow> string list option) \<Rightarrow> (string \<Rightarrow> string list option)" where
  "create_test_funcs [] cls = cls"
| "create_test_funcs ((prob_num, cq_files) # rest) cls =
     (if length cq_files = 3
      then create_test_funcs rest (cls(''test_prob'' @ format_02d prob_num \<mapsto> sort cq_files))
      else create_test_funcs rest cls)"

text \<open>
  \<^verbatim>\<open>main\<close> up to the call of \<^verbatim>\<open>unittest.main\<close>. Python iterates over the set of
  discovered names in an order of its own choosing: \<open>set_iter\<close> is that order.
\<close>

definition main :: "(string set \<Rightarrow> string list) \<Rightarrow> fsys \<Rightarrow> string \<Rightarrow> error + (string \<Rightarrow> string list option)" where
  "main set_iter fs cwd =
     (case get_cq_files fs cwd of
        Inl e \<Rightarrow> Inl e
      | Inr cq_files \<Rightarrow>
          (case group_cq_files (set_iter cq_files) of
             Inl e \<Rightarrow> Inl e
           | Inr grouped \<Rightarrow> Inr (create_test_funcs grouped Map.empty)))"

section \<open>Well-formed names\<close>

definition two_digits :: "nat \<Rightarrow> string" where
  "two_digits n = [digit_char (n div 10), digit_char (n mod 10)]"

definition prob_in :: "nat \<Rightarrow> string" where
  "prob_in n = ''Prob'' @ two_digits n @ ''.in.txt''"

definition prob_out :: "nat \<Rightarrow> string" where
  "prob_out n = ''Prob'' @ two_digits n @ ''.out.txt''"

definition prob_py :: "nat \<Rightarrow> string" where
  "prob_py n = ''Prob'' @ two_digits n @ ''.py''"

definition triple :: "nat \<Rightarrow> string set" where
  "triple n = {prob_in n, prob_out n, prob_py n}"




section \<open>Invariants of the differ\<close>

text \<open>
  The predicates of this section are no part of the program; the proofs below state
  their invariants with them.

  The match that \<open>find_longest_match\<close> returns lies inside the window it was asked
  about. While the loops run, every entry of \<^verbatim>\<open>j2len\<close> is bounded by the number of rows
  read and by the distance of its column from \<open>blo\<close> (\<open>row_ok\<close>), and the best match lies
  inside the window (\<open>best_ok\<close>); in particular no subtraction in the model goes below zero.
\<close>

definition row_ok :: "nat \<Rightarrow> nat \<Rightarrow> nat \<Rightarrow> (nat \<Rightarrow> nat option) \<Rightarrow> bool" where
  "row_ok alo blo n m = (\<forall>j v. m j = Some v \<longrightarrow> v \<le> n \<and> v \<le> j + 1 - blo \<and> blo \<le> j)"

definition best_ok :: "nat \<Rightarrow> nat \<Rightarrow> nat \<Rightarrow> nat \<Rightarrow> match \<Rightarrow> bool" where
  "best_ok alo ahi blo bhi x =
     (case x of (i, j, k) \<Rightarrow> alo \<le> i \<and> blo \<le> j \<and> i + k \<le> max alo ahi \<and> j + k \<le> max blo bhi)"

text \<open>The pairs that the search of \<^verbatim>\<open>_fancy_replace\<close> returns lie inside the two windows.\<close>

definition search_ok :: "nat \<Rightarrow> nat \<Rightarrow> nat \<Rightarrow> nat \<Rightarrow> search \<Rightarrow> bool" where
  "search_ok alo ahi blo bhi st =
     (case st of (r, best, eq) \<Rightarrow>
        (\<forall>i j. best = Some (i, j) \<or> eq = Some (i, j) \<longrightarrow> alo \<le> i \<and> i < ahi \<and> blo \<le> j \<and> j < bhi))"

text \<open>
  Comparing a sequence with itself. \<open>run_len a i\<close> is the length of the run of elements
  that are not popular and that ends at position \<open>i\<close>. Row \<open>i\<close> of the table \<^verbatim>\<open>j2len\<close>
  holds \<open>run_len a i\<close> on the diagonal and nothing larger elsewhere, so the best match
  stays on the diagonal, and the two extension loops stretch it over the whole sequence.
\<close>

fun run_len :: "'a list \<Rightarrow> nat \<Rightarrow> nat" where
  "run_len a 0 = (if popular a (a ! 0) then 0 else 1)"
| "run_len a (Suc i) = (if popular a (a ! Suc i) then 0 else run_len a i + 1)"

definition row_inv :: "'a list \<Rightarrow> nat \<Rightarrow> (nat \<Rightarrow> nat option) \<Rightarrow> bool" where
  "row_inv a i m =
     ((popular a (a ! i) \<longrightarrow> m = Map.empty)
      \<and> (\<not> popular a (a ! i) \<longrightarrow> m i = Some (run_len a i))
      \<and> (\<forall>j v. m j = Some v \<longrightarrow> v \<le> run_len a i \<and> v \<le> run_len a j))"

definition prev_inv :: "'a list \<Rightarrow> nat \<Rightarrow> (nat \<Rightarrow> nat option) \<Rightarrow> bool" where
  "prev_inv a i m = (case i of 0 \<Rightarrow> m = Map.empty | Suc i' \<Rightarrow> row_inv a i' m)"

definition best_inv :: "'a list \<Rightarrow> nat \<Rightarrow> match \<Rightarrow> bool" where
  "best_inv a i best =
     (case best of (bi, bj, bs) \<Rightarrow> bi = bj \<and> bi + bs \<le> i \<and> (\<forall>j<i. run_len a j \<le> bs))"

section \<open>Termination of the differ\<close>

text \<open>
  The loop of \<^verbatim>\<open>get_matching_blocks\<close> terminates because each window it pushes is
  smaller than the one it popped, and \<^verbatim>\<open>_fancy_replace\<close> because it calls itself on
  windows on either side of the pair it synchronises on.
\<close>

declare extend_left.simps [simp del] extend_right.simps [simp del]

lemma j2len_get_le:
  assumes "row_ok alo blo n m" and "blo \<le> j"
  shows "j2len_get m j \<le> n \<and> j2len_get m j \<le> j - blo"
proof (cases j)
  case 0
  then show ?thesis by (simp add: j2len_get_def)
next
  case (Suc j')
  show ?thesis
  proof (cases "m j'")
    case None
    then show ?thesis using Suc by (simp add: j2len_get_def)
  next
    case (Some v)
    then have "v \<le> n \<and> v \<le> j' + 1 - blo \<and> blo \<le> j'"
      using assms(1) by (simp add: row_ok_def)
    then show ?thesis using Suc Some by (simp add: j2len_get_def)
  qed
qed

lemma j_loop_ok:
  assumes "row_ok alo blo (i - alo) j2len" and "row_ok alo blo (i + 1 - alo) new"
    and "best_ok alo ahi blo bhi best" and "alo \<le> i" and "i < ahi"
  shows "row_ok alo blo (i + 1 - alo) (fst (j_loop blo bhi i j2len js (new, best))) \<and>
         best_ok alo ahi blo bhi (snd (j_loop blo bhi i j2len js (new, best)))"
  using assms(2,3)
proof (induction js arbitrary: new best)
  case Nil
  then show ?case by simp
next
  case (Cons j js)
  obtain bi bj bs where best: "best = (bi, bj, bs)" by (cases best) auto
  show ?case
  proof (cases "j < blo")
    case True
    then show ?thesis using Cons best by simp
  next
    case nlo: False
    show ?thesis
    proof (cases "bhi \<le> j")
      case True
      then show ?thesis using Cons.prems nlo best by simp
    next
      case False
      define k where "k = j2len_get j2len j + 1"
      have k: "k \<le> i + 1 - alo" "k \<le> j + 1 - blo"
        using j2len_get_le[OF assms(1), of j] nlo assms(4) by (auto simp: k_def)
      have r: "row_ok alo blo (i + 1 - alo) (new(j \<mapsto> k))"
        using Cons.prems(1) k nlo by (auto simp: row_ok_def)
      have b: "best_ok alo ahi blo bhi (if bs < k then (i + 1 - k, j + 1 - k, k) else (bi, bj, bs))"
        using Cons.prems(2) best k nlo False assms(4,5) by (auto simp: best_ok_def)
      have eq: "j_loop blo bhi i j2len (j # js) (new, best) =
            j_loop blo bhi i j2len js (new(j \<mapsto> k), if bs < k then (i + 1 - k, j + 1 - k, k) else (bi, bj, bs))"
        using nlo False best by (simp add: k_def Let_def)
      show ?thesis unfolding eq by (rule Cons.IH[OF r b])
    qed
  qed
qed

lemma row_ok_empty: "row_ok alo blo n Map.empty"
  by (simp add: row_ok_def)

lemma i_loop_ok:
  assumes "row_ok alo blo (i0 - alo) j2len" and "best_ok alo ahi blo bhi best" and "alo \<le> i0"
  shows "best_ok alo ahi blo bhi (i_loop a b blo bhi [i0..<ahi] (j2len, best))"
  using assms
proof (induction "ahi - i0" arbitrary: i0 j2len best)
  case 0
  then show ?case by simp
next
  case (Suc n)
  then have lt: "i0 < ahi" by simp
  obtain new best' where st: "j_loop blo bhi i0 j2len (b2j b (a ! i0)) (Map.empty, best) = (new, best')"
    by (cases "j_loop blo bhi i0 j2len (b2j b (a ! i0)) (Map.empty, best)") auto
  have "row_ok alo blo (i0 + 1 - alo) new \<and> best_ok alo ahi blo bhi best'"
    using j_loop_ok[OF Suc.prems(1) row_ok_empty Suc.prems(2,3) lt, of "b2j b (a ! i0)"] st by simp
  then have "best_ok alo ahi blo bhi (i_loop a b blo bhi [Suc i0..<ahi] (new, best'))"
    using Suc.hyps(1)[of "Suc i0" new best'] Suc.hyps(2) Suc.prems(3) by simp
  then show ?case using st lt by (simp add: upt_conv_Cons)
qed

lemma extend_left_ok:
  "best_ok alo ahi blo bhi x \<Longrightarrow> best_ok alo ahi blo bhi (extend_left a b alo blo x)"
proof (induction a b alo blo x rule: extend_left.induct)
  case (1 a b alo blo besti bestj bestsize)
  show ?case
  proof (cases "alo < besti \<and> blo < bestj \<and> a ! (besti - 1) = b ! (bestj - 1)")
    case True
    have "best_ok alo ahi blo bhi (besti - 1, bestj - 1, bestsize + 1)"
      using 1(2) True by (auto simp: best_ok_def)
    then show ?thesis using 1(1) True by (simp add: extend_left.simps[of a b alo blo besti])
  next
    case False
    show ?thesis by (subst extend_left.simps) (simp only: False if_False 1(2))
  qed
qed

lemma extend_right_ok:
  "best_ok alo ahi blo bhi x \<Longrightarrow> best_ok alo ahi blo bhi (extend_right a b ahi bhi x)"
proof (induction a b ahi bhi x rule: extend_right.induct)
  case (1 a b ahi bhi besti bestj bestsize)
  show ?case
  proof (cases "besti + bestsize < ahi \<and> bestj + bestsize < bhi \<and> a ! (besti + bestsize) = b ! (bestj + bestsize)")
    case True
    have "best_ok alo ahi blo bhi (besti, bestj, bestsize + 1)"
      using 1(2) True by (auto simp: best_ok_def)
    then show ?thesis using 1(1) True by (simp add: extend_right.simps[of a b ahi bhi besti])
  next
    case False
    show ?thesis by (subst extend_right.simps) (simp only: False if_False 1(2))
  qed
qed

lemma find_longest_match_ok: "best_ok alo ahi blo bhi (find_longest_match a b alo ahi blo bhi)"
proof -
  have b0: "best_ok alo ahi blo bhi (alo, blo, 0)"
    by (simp add: best_ok_def)
  have "best_ok alo ahi blo bhi (i_loop a b blo bhi [alo..<ahi] (Map.empty, (alo, blo, 0)))"
  proof (cases "alo \<le> ahi")
    case True
    then show ?thesis
      using i_loop_ok[OF row_ok_empty b0, of alo] by simp
  next
    case False
    then show ?thesis using b0 by simp
  qed
  then show ?thesis
    unfolding find_longest_match_def by (intro extend_right_ok extend_left_ok)
qed

lemma find_longest_match_bounds:
  assumes "find_longest_match a b alo ahi blo bhi = (i, j, k)" and "k \<noteq> 0"
  shows "alo \<le> i \<and> i + k \<le> ahi \<and> blo \<le> j \<and> j + k \<le> bhi"
  using find_longest_match_ok[of alo ahi blo bhi a b] assms
  by (auto simp: best_ok_def max_def split: if_splits)

termination mb_loop
  apply (relation "measure (\<lambda>(a, b, queue, blocks). \<Sum>(alo, ahi, blo, bhi) \<leftarrow> queue. 2 * (ahi - alo) + 1)")
    apply simp_all
  subgoal for a b alo ahi blo bhi i y j k
    using find_longest_match_bounds[of a b alo ahi blo bhi i j k] by auto
  done

declare mb_loop.simps [simp del]

lemma search_i_ok:
  "search_ok alo ahi blo bhi st \<Longrightarrow> blo \<le> j \<Longrightarrow> j < bhi \<Longrightarrow> \<forall>i\<in>set is. alo \<le> i \<and> i < ahi \<Longrightarrow>
   search_ok alo ahi blo bhi (search_i a bj j is st)"
proof (induction "is" arbitrary: st)
  case Nil
  then show ?case by simp
next
  case (Cons i "is")
  obtain r best eq where st: "st = (r, best, eq)" by (cases st) auto
  have 1: "search_ok alo ahi blo bhi (r, best, if eq = None then Some (i, j) else eq)"
    using Cons.prems st by (auto simp: search_ok_def)
  have 2: "search_ok alo ahi blo bhi (ratio (a ! i) bj, Some (i, j), eq)"
    using Cons.prems st by (auto simp: search_ok_def)
  have 3: "search_ok alo ahi blo bhi (r, best, eq)"
    using Cons.prems st by simp
  have r: "\<forall>i\<in>set is. alo \<le> i \<and> i < ahi" using Cons.prems by simp
  show ?case
    unfolding st search_i.simps
    using Cons.IH[OF 1 Cons.prems(2,3) r] Cons.IH[OF 2 Cons.prems(2,3) r] Cons.IH[OF 3 Cons.prems(2,3) r]
    by (simp split: if_split)
qed

lemma search_j_ok:
  "search_ok alo ahi blo bhi st \<Longrightarrow> \<forall>j\<in>set js. blo \<le> j \<and> j < bhi \<Longrightarrow>
   search_ok alo ahi blo bhi (search_j a b alo ahi js st)"
proof (induction js arbitrary: st)
  case Nil
  then show ?case by simp
next
  case (Cons j js)
  have "search_ok alo ahi blo bhi (search_i a (b ! j) j [alo..<ahi] st)"
    using Cons.prems by (intro search_i_ok) auto
  then show ?case using Cons by simp
qed

lemma search_bounds:
  assumes "search_j a b alo ahi [blo..<bhi] (r0, None, None) = (r, best, eq)"
    and "best = Some (i, j) \<or> eq = Some (i, j)"
  shows "alo \<le> i \<and> i < ahi \<and> blo \<le> j \<and> j < bhi"
proof -
  have "search_ok alo ahi blo bhi (r0, None, None)" by (simp add: search_ok_def)
  then have "search_ok alo ahi blo bhi (search_j a b alo ahi [blo..<bhi] (r0, None, None))"
    by (intro search_j_ok) auto
  then show ?thesis using assms by (auto simp: search_ok_def)
qed

termination fancy_replace
  apply (relation "measure (\<lambda>x. case x of
          Inl (a, alo, ahi, b, blo, bhi) \<Rightarrow> 2 * ((ahi - alo) + (bhi - blo))
        | Inr (a, alo, ahi, b, blo, bhi) \<Rightarrow> 2 * ((ahi - alo) + (bhi - blo)) + 1)")
       apply simp_all
  subgoal for a alo ahi b blo bhi r y best eq p i j
    using search_bounds[of a b alo ahi blo bhi "37 / 50" r best eq i j] by auto
  subgoal for a alo ahi b blo bhi r y best eq p i j
    using search_bounds[of a b alo ahi blo bhi "37 / 50" r best eq i j] by auto
  subgoal for a alo ahi b blo bhi r y best eq p i j
    using search_bounds[of a b alo ahi blo bhi "37 / 50" r best eq i j] by auto
  subgoal for a alo ahi b blo bhi r y best eq p i j
    using search_bounds[of a b alo ahi blo bhi "37 / 50" r best eq i j] by auto
  done

declare fancy_replace.simps [simp del] fancy_helper.simps [simp del]

section \<open>Properties of discovery\<close>

lemma match_loop_eq: "match_loop names matched = matched \<union> {f \<in> set names. re_match REGEX_PATTERN f}"
  by (induction names arbitrary: matched) auto

lemma get_cq_files_dir:
  "fs d = Some (Dir es) \<Longrightarrow> get_cq_files fs d = Inr {f \<in> set es. re_match REGEX_PATTERN f}"
  by (simp add: get_cq_files_def path_exists_def isdir_def listdir_def match_loop_eq)

lemma get_cq_files_not_dir:
  "\<not> isdir fs d \<Longrightarrow> get_cq_files fs d = Inl (OSError d)"
  by (simp add: get_cq_files_def)

subsection \<open>Digits and numbers\<close>

lemma lt10_cases: "n < 10 \<Longrightarrow> n \<in> {0, 1, 2, 3, 4, 5, 6, 7, 8, 9::nat}"
  by auto

lemma digit_char_digit: "n < 10 \<Longrightarrow> is_digit (digit_char n) \<and> digit_val (digit_char n) = n"
  using lt10_cases[of n] by (auto simp: digit_char_def is_digit_def digit_val_def)

lemma is_digit_not_special:
  "is_digit c \<Longrightarrow> \<not> int_space c \<and> c \<noteq> CHR ''-'' \<and> c \<noteq> CHR ''+'' \<and> c \<noteq> CHR ''/'' \<and> c \<noteq> CHR ''_''"
  by (auto simp: is_digit_def int_space_def)

lemma py_int_two_digits:
  "is_digit c \<Longrightarrow> is_digit d \<Longrightarrow> py_int [c, d] = Inr (int (10 * digit_val c + digit_val d))"
  using is_digit_not_special[of c] is_digit_not_special[of d]
  by (simp add: py_int_def int_unsigned_def)

lemma rmatch_Lit_iff: "r \<in> set (rmatch (Lit l) s) \<longleftrightarrow> s = l @ r"
  by (auto simp: prefix_def)

lemma rmatch_Range_iff:
  "r \<in> set (rmatch (Range lo hi) s) \<longleftrightarrow>
     (\<exists>c. s = c # r \<and> (of_char lo :: nat) \<le> of_char c \<and> (of_char c :: nat) \<le> of_char hi)"
  by (cases s) auto

lemma rmatch_Seq_iff:
  "r \<in> set (rmatch (Seq a b) s) \<longleftrightarrow> (\<exists>m. m \<in> set (rmatch a s) \<and> r \<in> set (rmatch b m))"
  by auto

lemma rmatch_Alt_iff:
  "r \<in> set (rmatch (Alt a b) s) \<longleftrightarrow> r \<in> set (rmatch a s) \<or> r \<in> set (rmatch b s)"
  by auto

lemma re_match_iff: "re_match r s \<longleftrightarrow> (\<exists>x. x \<in> set (rmatch r s))"
  by (cases "rmatch r s") (auto simp: re_match_def)

lemma rep2: "rep 2 r = Seq r (Seq r (Lit []))"
  by (simp add: numeral_2_eq_2)

lemma re_match_pattern:
  "re_match REGEX_PATTERN f \<longleftrightarrow>
     (\<exists>c d r. is_digit c \<and> is_digit d \<and>
        (f = ''Prob'' @ [c, d] @ ''.in.txt'' @ r \<or> f = ''Prob'' @ [c, d] @ ''.out.txt'' @ r
          \<or> f = ''Prob'' @ [c, d] @ ''.py'' @ r))"
  unfolding re_match_iff REGEX_PATTERN_def rep2
  apply (simp only: rmatch_Seq_iff rmatch_Alt_iff rmatch_Lit_iff rmatch_Range_iff)
  apply (simp add: is_digit_def)
  apply (rule iffI)
  apply (elim exE conjE disjE; simp; blast)
  apply (elim exE conjE disjE; simp; blast?)
  done

lemma takeWhile_no_slash: "CHR ''/'' \<notin> set p \<Longrightarrow> takeWhile (\<lambda>c. c \<noteq> CHR ''/'') (rev p) = rev p"
  by (rule takeWhile_eq_all_conv[THEN iffD2]) auto

lemma basename_no_slash: "CHR ''/'' \<notin> set p \<Longrightarrow> basename p = p"
  by (simp add: basename_def takeWhile_no_slash)

lemma dirname_no_slash: "CHR ''/'' \<notin> set p \<Longrightarrow> dirname p = []"
  by (auto simp: dirname_def dropWhile_eq_Nil_conv)

lemma two_digits_digits:
  "n < 100 \<Longrightarrow> \<exists>c d. two_digits n = [c, d] \<and> is_digit c \<and> is_digit d \<and> 10 * digit_val c + digit_val d = n"
  using digit_char_digit[of "n div 10"] digit_char_digit[of "n mod 10"]
  by (simp add: two_digits_def)

lemma triple_form:
  assumes "n < 100" and "f \<in> triple n"
  shows "\<exists>c d ext. f = ''Prob'' @ [c, d] @ ext \<and> is_digit c \<and> is_digit d
           \<and> 10 * digit_val c + digit_val d = n \<and> ext \<in> {''.in.txt'', ''.out.txt'', ''.py''}"
  using two_digits_digits[OF assms(1)] assms(2)
  by (auto simp: triple_def prob_in_def prob_out_def prob_py_def)

lemma triple_match: "n < 100 \<Longrightarrow> f \<in> triple n \<Longrightarrow> re_match REGEX_PATTERN f"
  using triple_form[of n f] by (auto simp: re_match_pattern)

lemma triple_no_slash:
  assumes "n < 100" and "f \<in> triple n"
  shows "CHR ''/'' \<notin> set f"
proof -
  from triple_form[OF assms] obtain c d ext where
    f: "f = ''Prob'' @ [c, d] @ ext" and c: "is_digit c" and d: "is_digit d"
    and ext: "ext \<in> {''.in.txt'', ''.out.txt'', ''.py''}"
    by blast
  have "c \<noteq> CHR ''/''" "d \<noteq> CHR ''/''"
    using is_digit_not_special c d by blast+
  then show ?thesis using f ext by auto
qed

lemma triple_num:
  assumes "n < 100" and "f \<in> triple n"
  shows "py_int (get_prob_num f) = Inr (int n)"
proof -
  from triple_form[OF assms] obtain c d ext where
    f: "f = ''Prob'' @ [c, d] @ ext" and c: "is_digit c" and d: "is_digit d"
    and n: "10 * digit_val c + digit_val d = n"
    by blast
  have "basename f = f"
    by (rule basename_no_slash[OF triple_no_slash[OF assms]])
  then have "get_prob_num f = take 2 (drop 4 f)"
    by (simp add: get_prob_num_def)
  then have "get_prob_num f = [c, d]"
    using f by simp
  then show ?thesis
    using py_int_two_digits[OF c d] n by simp
qed

lemma triple_card: "card (triple n) = 3"
  by (simp add: triple_def prob_in_def prob_out_def prob_py_def two_digits_def)

lemma group_loop_spec:
  assumes "\<forall>f\<in>set cq. py_int (get_prob_num f) = Inr (num f)" and "distinct (map fst g)"
  shows "\<exists>g'. group_loop cq g = Inr g' \<and> distinct (map fst g') \<and>
           (\<forall>k. map_of g' k =
              (case map_of g k of
                 Some l \<Rightarrow> Some (l @ [f \<leftarrow> cq. num f = k])
               | None \<Rightarrow> if [f \<leftarrow> cq. num f = k] = [] then None else Some [f \<leftarrow> cq. num f = k]))"
  using assms
proof (induction cq arbitrary: g)
  case Nil
  then show ?case by (auto split: option.splits)
next
  case (Cons f rest)
  have pf: "py_int (get_prob_num f) = Inr (num f)" and
    prest: "\<forall>f\<in>set rest. py_int (get_prob_num f) = Inr (num f)"
    using Cons.prems(1) by auto
  show ?case
  proof (cases "map_of g (num f)")
    case None
    let ?g1 = "g @ [(num f, [f])]"
    have d1: "distinct (map fst ?g1)"
      using Cons.prems(2) None by (auto simp: map_of_eq_None_iff)
    from Cons.IH[OF prest d1] obtain g' where
      g': "group_loop rest ?g1 = Inr g'" "distinct (map fst g')"
      "\<forall>k. map_of g' k =
              (case map_of ?g1 k of
                 Some l \<Rightarrow> Some (l @ [f \<leftarrow> rest. num f = k])
               | None \<Rightarrow> if [f \<leftarrow> rest. num f = k] = [] then None else Some [f \<leftarrow> rest. num f = k])"
      by blast
    have "group_loop (f # rest) g = Inr g'"
      using pf None g'(1) by simp
    moreover have "map_of g' k =
              (case map_of g k of
                 Some l \<Rightarrow> Some (l @ [x \<leftarrow> f # rest. num x = k])
               | None \<Rightarrow> if [x \<leftarrow> f # rest. num x = k] = [] then None else Some [x \<leftarrow> f # rest. num x = k])" for k
      using g'(3)[rule_format, of k] None
      by (auto simp: map_add_def split: option.splits if_splits)
    ultimately show ?thesis using g'(2) by blast
  next
    case (Some l)
    let ?g1 = "AList.update (num f) (l @ [f]) g"
    have d1: "distinct (map fst ?g1)"
      using Cons.prems(2) by (simp add: distinct_update)
    from Cons.IH[OF prest d1] obtain g' where
      g': "group_loop rest ?g1 = Inr g'" "distinct (map fst g')"
      "\<forall>k. map_of g' k =
              (case map_of ?g1 k of
                 Some l \<Rightarrow> Some (l @ [f \<leftarrow> rest. num f = k])
               | None \<Rightarrow> if [f \<leftarrow> rest. num f = k] = [] then None else Some [f \<leftarrow> rest. num f = k])"
      by blast
    have "group_loop (f # rest) g = Inr g'"
      using pf Some g'(1) by simp
    moreover have "map_of g' k =
              (case map_of g k of
                 Some l \<Rightarrow> Some (l @ [x \<leftarrow> f # rest. num x = k])
               | None \<Rightarrow> if [x \<leftarrow> f # rest. num x = k] = [] then None else Some [x \<leftarrow> f # rest. num x = k])" for k
      using g'(3)[rule_format, of k] Some
      by (auto simp: update_conv' split: option.splits if_splits)
    ultimately show ?thesis using g'(2) by blast
  qed
qed

lemma triple_disjoint:
  assumes "n < 100" and "m < 100" and "f \<in> triple n" and "f \<in> triple m"
  shows "n = m"
  using triple_num[OF assms(1,3)] triple_num[OF assms(2,4)] by simp

text \<open>
  C8. When a directory holds exactly the three files of each problem number of a set \<open>N\<close>
  of two-digit numbers, discovery returns all of them, and grouping them, in whatever
  order the set of names is iterated, gives one group per number of \<open>N\<close>, each holding
  exactly its three files; so no group has more than three members.
\<close>

theorem discovery_grouping_well_formed:
  assumes dir: "fs d = Some (Dir es)"
    and wf: "set es = (\<Union>n\<in>N. triple n)"
    and N: "\<forall>n\<in>N. n < 100"
  shows "get_cq_files fs d = Inr (set es) \<and>
    (\<forall>cq. set cq = set es \<and> distinct cq \<longrightarrow>
       (\<exists>grouped. group_cq_files cq = Inr grouped \<and> distinct (map fst grouped) \<and>
          fst ` set grouped = int ` N \<and>
          (\<forall>(k, g)\<in>set grouped. set g = triple (nat k) \<and> length g = 3)))"
proof (intro conjI allI impI)
  have "re_match REGEX_PATTERN f" if "f \<in> set es" for f
    using that wf N triple_match by auto
  then show "get_cq_files fs d = Inr (set es)"
    using get_cq_files_dir[of fs d es] dir by auto
next
  fix cq
  assume cq: "set cq = set es \<and> distinct cq"
  define num where "num = (\<lambda>f. int (10 * digit_val (f ! 4) + digit_val (f ! 5)))"
  have num: "num f = int n" if "n \<in> N" "f \<in> triple n" for n f
  proof -
    from triple_form[of n f] that N obtain c d ext where
      "f = ''Prob'' @ [c, d] @ ext" "10 * digit_val c + digit_val d = n"
      by blast
    then show ?thesis by (simp add: num_def)
  qed
  have pi: "\<forall>f\<in>set cq. py_int (get_prob_num f) = Inr (num f)"
  proof
    fix f assume "f \<in> set cq"
    then obtain n where n: "n \<in> N" "f \<in> triple n" using cq wf by auto
    then show "py_int (get_prob_num f) = Inr (num f)"
      using triple_num[of n f] num[OF n] N by simp
  qed
  from group_loop_spec[OF pi, of "[]"] obtain grouped where
    g: "group_loop cq [] = Inr grouped" "distinct (map fst grouped)"
    and m: "\<And>k. map_of grouped k = (if [f \<leftarrow> cq. num f = k] = [] then None else Some [f \<leftarrow> cq. num f = k])"
    by auto
  have filt: "set [f \<leftarrow> cq. num f = int n] = triple n" if "n \<in> N" for n
  proof -
    have "triple n \<subseteq> set cq" using cq wf that by auto
    moreover have "f \<in> triple n" if "f \<in> set cq" "num f = int n" for f
    proof -
      from that(1) obtain n' where n': "n' \<in> N" "f \<in> triple n'" using cq wf by auto
      with num[OF n'] that(2) show ?thesis by simp
    qed
    ultimately show ?thesis using num[OF that] by auto
  qed
  have empty: "[f \<leftarrow> cq. num f = k] = []" if "k \<notin> int ` N" for k
  proof -
    have "num f \<noteq> k" if "f \<in> set cq" for f
    proof -
      from that obtain n' where n': "n' \<in> N" "f \<in> triple n'" using cq wf by auto
      with num[OF n'] \<open>k \<notin> int ` N\<close> show ?thesis by auto
    qed
    then show ?thesis by (auto simp: filter_empty_conv)
  qed
  have keys: "fst ` set grouped = int ` N"
  proof -
    have "fst ` set grouped = dom (map_of grouped)"
      by (simp add: dom_map_of_conv_image_fst)
    also have "\<dots> = int ` N"
    proof (rule set_eqI)
      fix k
      show "k \<in> dom (map_of grouped) \<longleftrightarrow> k \<in> int ` N"
      proof (cases "k \<in> int ` N")
        case True
        then obtain n where n: "n \<in> N" "k = int n" by auto
        have "triple n \<noteq> {}" by (simp add: triple_def)
        with filt[OF n(1)] have "set [f \<leftarrow> cq. num f = k] \<noteq> {}" using n(2) by simp
        then have "[f \<leftarrow> cq. num f = k] \<noteq> []" by (simp only: set_empty not_False_eq_True)
        then show ?thesis using True by (simp add: m dom_def)
      next
        case False
        then show ?thesis using empty[OF False] by (simp add: m dom_def)
      qed
    qed
    finally show ?thesis .
  qed
  have groups: "\<forall>(k, g)\<in>set grouped. set g = triple (nat k) \<and> length g = 3"
  proof (clarify)
    fix k g assume kg: "(k, g) \<in> set grouped"
    then have "k \<in> int ` N" using keys by force
    then obtain n where n: "n \<in> N" "k = int n" by auto
    from kg have "map_of grouped k = Some g" using g(2) by simp
    then have geq: "g = [f \<leftarrow> cq. num f = k]" by (simp add: m split: if_splits)
    then have s: "set g = triple n" using filt[OF n(1)] n(2) by simp
    have "distinct g" using geq cq by simp
    then have "length g = card (set g)" by (simp add: distinct_card)
    then have "length g = 3" using s by (simp add: triple_card)
    with s n(2) show "set g = triple (nat k) \<and> length g = 3" by simp
  qed
  show "\<exists>grouped. group_cq_files cq = Inr grouped \<and> distinct (map fst grouped) \<and>
          fst ` set grouped = int ` N \<and>
          (\<forall>(k, g)\<in>set grouped. set g = triple (nat k) \<and> length g = 3)"
    using g keys groups by (auto simp: group_cq_files_def)
qed

theorem discovery_grouping_well_formed_witness:
  "get_cq_files [''cq'' \<mapsto> Dir [''Prob03.py'', ''Prob03.in.txt'', ''Prob03.out.txt'']] ''cq''
     = Inr {''Prob03.py'', ''Prob03.in.txt'', ''Prob03.out.txt''}
   \<and> (\<exists>grouped. group_cq_files [''Prob03.out.txt'', ''Prob03.py'', ''Prob03.in.txt''] = Inr grouped
         \<and> distinct (map fst grouped) \<and> fst ` set grouped = {3}
         \<and> (\<forall>(k, g)\<in>set grouped. set g = triple (nat k) \<and> length g = 3))"
proof -
  let ?es = "[''Prob03.py'', ''Prob03.in.txt'', ''Prob03.out.txt'']"
  have t: "triple 3 = set ?es"
    by (auto simp: triple_def prob_in_def prob_out_def prob_py_def two_digits_def digit_char_def)
  have 1: "[''cq'' \<mapsto> Dir ?es] ''cq'' = Some (Dir ?es)" by simp
  have 2: "set ?es = (\<Union>n\<in>{3::nat}. triple n)" using t by simp
  have 3: "\<forall>n\<in>{3::nat}. n < 100" by simp
  have 4: "set [''Prob03.out.txt'', ''Prob03.py'', ''Prob03.in.txt''] = set ?es
           \<and> distinct [''Prob03.out.txt'', ''Prob03.py'', ''Prob03.in.txt'']"
    by auto
  from discovery_grouping_well_formed[of "[''cq'' \<mapsto> Dir ?es]" "''cq''" ?es "{3}"] 1 2 3 4
  show ?thesis by (simp del: fun_upd_apply)
qed

section \<open>Discovery: what is matched, and when it raises\<close>

text \<open>
  C6. \<open>get_cq_files\<close> keeps every name that starts with a well-formed name, not only the
  well-formed names: \<^verbatim>\<open>reg_pattern.match\<close> does not look at the end of the name. Here it
  returns \<^verbatim>\<open>Prob03.pyc\<close> and \<^verbatim>\<open>Prob03.in.txt.bak\<close>.
\<close>

theorem get_cq_files_prefix_match:
  "get_cq_files [''cq'' \<mapsto> Dir [''Prob03.py'', ''Prob03.pyc'', ''Prob03.in.txt.bak'', ''notes.txt'']] ''cq''
     = Inr {''Prob03.py'', ''Prob03.pyc'', ''Prob03.in.txt.bak''}"
  by (simp add: get_cq_files_def path_exists_def isdir_def listdir_def re_match_def REGEX_PATTERN_def
      numeral_2_eq_2 insert_commute)

lemma get_cq_files_io_not_dir:
  "\<not> (path_exists (files w) d \<and> isdir (files w) d) \<Longrightarrow> get_cq_files_io w d = (Inl (OSError d), w)"
  by (simp add: get_cq_files_io_def)

lemma get_cq_files_io_dir:
  "path_exists (files w) d \<and> isdir (files w) d \<Longrightarrow>
   get_cq_files_io w d = (get_cq_files (files w) d, w\<lparr>events := events w @ [ListDir d]\<rparr>)"
  by (cases "listdir (files w) d") (simp_all add: get_cq_files_io_def get_cq_files_def Let_def)

lemma get_cq_files_locked:
  "fs d = Some Locked \<Longrightarrow> get_cq_files fs d = Inl (PermissionError d)"
  by (simp add: get_cq_files_def path_exists_def isdir_def listdir_def)

text \<open>
  C9. When the path does not exist or is no directory, \<open>get_cq_files\<close> raises
  \<^verbatim>\<open>OSError\<close>, and so does \<open>main\<close>, before any test is made. When the path is a
  directory that can be listed, \<open>get_cq_files\<close> returns the names of the listing that
  match. When the path is a directory that cannot be listed, the \<^verbatim>\<open>PermissionError\<close> of
  \<^verbatim>\<open>os.listdir\<close> leaves \<open>get_cq_files\<close> and \<open>main\<close>. In every case the function does
  nothing to the world but list the directory: the file system and the temporary names
  are as before, and the only event it can add is the listing.
\<close>

theorem get_cq_files_raises_iff:
  "(\<not> (path_exists (files w) d \<and> isdir (files w) d) \<longrightarrow>
      get_cq_files_io w d = (Inl (OSError d), w) \<and> main set_iter (files w) d = Inl (OSError d))
   \<and> (\<forall>es. files w d = Some (Dir es) \<longrightarrow>
      get_cq_files_io w d
        = (Inr {f \<in> set es. re_match REGEX_PATTERN f}, w\<lparr>events := events w @ [ListDir d]\<rparr>))
   \<and> (files w d = Some Locked \<longrightarrow>
      get_cq_files_io w d = (Inl (PermissionError d), w\<lparr>events := events w @ [ListDir d]\<rparr>)
      \<and> main set_iter (files w) d = Inl (PermissionError d))
   \<and> fst (get_cq_files_io w d) = get_cq_files (files w) d
   \<and> files (snd (get_cq_files_io w d)) = files w
   \<and> temp_names (snd (get_cq_files_io w d)) = temp_names w
   \<and> (\<exists>evs. events (snd (get_cq_files_io w d)) = events w @ evs \<and> set evs \<subseteq> {ListDir d})"
proof (intro conjI impI allI)
  assume n: "\<not> (path_exists (files w) d \<and> isdir (files w) d)"
  then show "get_cq_files_io w d = (Inl (OSError d), w)" by (rule get_cq_files_io_not_dir)
  from n have "get_cq_files (files w) d = Inl (OSError d)" by (simp add: get_cq_files_def)
  then show "main set_iter (files w) d = Inl (OSError d)" by (simp add: main_def)
next
  fix es assume e: "files w d = Some (Dir es)"
  then have "path_exists (files w) d \<and> isdir (files w) d"
    by (simp add: path_exists_def isdir_def)
  from get_cq_files_io_dir[OF this] get_cq_files_dir[of "files w" d es] e
  show "get_cq_files_io w d
        = (Inr {f \<in> set es. re_match REGEX_PATTERN f}, w\<lparr>events := events w @ [ListDir d]\<rparr>)"
    by simp
next
  assume l: "files w d = Some Locked"
  then have "path_exists (files w) d \<and> isdir (files w) d"
    by (simp add: path_exists_def isdir_def)
  from get_cq_files_io_dir[OF this] get_cq_files_locked[of "files w" d] l
  show "get_cq_files_io w d = (Inl (PermissionError d), w\<lparr>events := events w @ [ListDir d]\<rparr>)"
    by simp
  from get_cq_files_locked[of "files w" d] l
  show "main set_iter (files w) d = Inl (PermissionError d)" by (simp add: main_def)
next
  show "fst (get_cq_files_io w d) = get_cq_files (files w) d"
  proof (cases "path_exists (files w) d \<and> isdir (files w) d")
    case True
    from get_cq_files_io_dir[OF this] show ?thesis by simp
  next
    case False
    from get_cq_files_io_not_dir[OF this] False show ?thesis by (simp add: get_cq_files_def)
  qed
next
  show "files (snd (get_cq_files_io w d)) = files w"
  proof (cases "path_exists (files w) d \<and> isdir (files w) d")
    case True
    from get_cq_files_io_dir[OF this] show ?thesis by simp
  next
    case False
    from get_cq_files_io_not_dir[OF this] show ?thesis by simp
  qed
next
  show "temp_names (snd (get_cq_files_io w d)) = temp_names w"
  proof (cases "path_exists (files w) d \<and> isdir (files w) d")
    case True
    from get_cq_files_io_dir[OF this] show ?thesis by simp
  next
    case False
    from get_cq_files_io_not_dir[OF this] show ?thesis by simp
  qed
next
  show "\<exists>evs. events (snd (get_cq_files_io w d)) = events w @ evs \<and> set evs \<subseteq> {ListDir d}"
  proof (cases "path_exists (files w) d \<and> isdir (files w) d")
    case True
    from get_cq_files_io_dir[OF this]
    have "events (snd (get_cq_files_io w d)) = events w @ [ListDir d]" by simp
    then show ?thesis by (intro exI[of _ "[ListDir d]"]) simp
  next
    case False
    from get_cq_files_io_not_dir[OF this]
    have "events (snd (get_cq_files_io w d)) = events w @ []" by simp
    then show ?thesis by (intro exI[of _ "[]"]) simp
  qed
qed

theorem get_cq_files_raises_iff_witness:
  "get_cq_files_io
      \<lparr>files = [''cq'' \<mapsto> Dir [''Prob03.py'', ''a.txt'']], temp_names = [], events = []\<rparr> ''nowhere''
     = (Inl (OSError ''nowhere''),
        \<lparr>files = [''cq'' \<mapsto> Dir [''Prob03.py'', ''a.txt'']], temp_names = [], events = []\<rparr>)
   \<and> main sorted_list_of_set [''cq'' \<mapsto> Dir [''Prob03.py'', ''a.txt'']] ''nowhere'' = Inl (OSError ''nowhere'')
   \<and> get_cq_files_io \<lparr>files = [''cq'' \<mapsto> File ''x''], temp_names = [], events = []\<rparr> ''cq''
     = (Inl (OSError ''cq''), \<lparr>files = [''cq'' \<mapsto> File ''x''], temp_names = [], events = []\<rparr>)
   \<and> get_cq_files_io
      \<lparr>files = [''cq'' \<mapsto> Dir [''Prob03.py'', ''a.txt'']], temp_names = [], events = []\<rparr> ''cq''
     = (Inr {f \<in> set [''Prob03.py'', ''a.txt'']. re_match REGEX_PATTERN f},
        \<lparr>files = [''cq'' \<mapsto> Dir [''Prob03.py'', ''a.txt'']], temp_names = [], events = [ListDir ''cq'']\<rparr>)
   \<and> get_cq_files_io \<lparr>files = [''cq'' \<mapsto> Locked], temp_names = [], events = []\<rparr> ''cq''
     = (Inl (PermissionError ''cq''),
        \<lparr>files = [''cq'' \<mapsto> Locked], temp_names = [], events = [ListDir ''cq'']\<rparr>)"
proof -
  let ?w = "\<lparr>files = [''cq'' \<mapsto> Dir [''Prob03.py'', ''a.txt'']], temp_names = [], events = []\<rparr>"
  let ?w2 = "\<lparr>files = [''cq'' \<mapsto> File ''x''], temp_names = [], events = []\<rparr>"
  let ?w3 = "\<lparr>files = [''cq'' \<mapsto> Locked], temp_names = [], events = []\<rparr>"
  have a: "\<not> (path_exists (files ?w) ''nowhere'' \<and> isdir (files ?w) ''nowhere'')"
    by (simp add: path_exists_def)
  have b: "\<not> (path_exists (files ?w2) ''cq'' \<and> isdir (files ?w2) ''cq'')"
    by (simp add: isdir_def)
  have c: "files ?w ''cq'' = Some (Dir [''Prob03.py'', ''a.txt''])" by simp
  have d: "files ?w3 ''cq'' = Some Locked" by simp
  note t1 = get_cq_files_raises_iff[of ?w "''nowhere''" sorted_list_of_set, THEN conjunct1, rule_format, OF a]
  note t2 = get_cq_files_raises_iff[of ?w2 "''cq''" sorted_list_of_set, THEN conjunct1, rule_format, OF b]
  note t3 = get_cq_files_raises_iff[of ?w "''cq''" sorted_list_of_set, THEN conjunct2, THEN conjunct1,
      rule_format, OF c]
  note t4 = get_cq_files_raises_iff[of ?w3 "''cq''" sorted_list_of_set, THEN conjunct2, THEN conjunct2,
      THEN conjunct1, rule_format, OF d]
  have 1: "get_cq_files_io ?w ''nowhere'' = (Inl (OSError ''nowhere''), ?w)" using t1 by simp
  have 5: "main sorted_list_of_set [''cq'' \<mapsto> Dir [''Prob03.py'', ''a.txt'']] ''nowhere''
            = Inl (OSError ''nowhere'')" using t1 by simp
  have 2: "get_cq_files_io ?w2 ''cq'' = (Inl (OSError ''cq''), ?w2)" using t2 by simp
  have 3: "get_cq_files_io ?w ''cq''
            = (Inr {f \<in> set [''Prob03.py'', ''a.txt'']. re_match REGEX_PATTERN f},
               \<lparr>files = [''cq'' \<mapsto> Dir [''Prob03.py'', ''a.txt'']], temp_names = [],
                events = [ListDir ''cq'']\<rparr>)"
    using t3 by simp
  have 4: "get_cq_files_io ?w3 ''cq''
            = (Inl (PermissionError ''cq''),
               \<lparr>files = [''cq'' \<mapsto> Locked], temp_names = [], events = [ListDir ''cq'']\<rparr>)"
    using t4 by simp
  show ?thesis by (intro conjI) (rule 1 5 2 3 4)+
qed

text \<open>
  C9 as the specification states it, with no exception for any directory that exists, does
  not hold: a directory that exists and cannot be listed makes \<open>get_cq_files\<close> raise
  \<^verbatim>\<open>PermissionError\<close>.
\<close>

theorem get_cq_files_locked_counterexample:
  "path_exists [''cq'' \<mapsto> Locked] ''cq'' \<and> isdir [''cq'' \<mapsto> Locked] ''cq''
   \<and> get_cq_files [''cq'' \<mapsto> Locked] ''cq'' = Inl (PermissionError ''cq'')"
  by (simp add: get_cq_files_def path_exists_def isdir_def listdir_def)

section \<open>The orchestrator: one test per complete group\<close>




lemma ctf_only:
  "create_test_funcs grouped cls name = Some cq \<Longrightarrow>
   cls name = Some cq \<or> (\<exists>(k, g)\<in>set grouped. length g = 3 \<and> name = ''test_prob'' @ format_02d k \<and> cq = sort g)"
proof (induction grouped arbitrary: cls)
  case Nil
  then show ?case by simp
next
  case (Cons a grouped)
  obtain k g where a: "a = (k, g)" by (cases a) auto
  show ?case
  proof (cases "length g = 3")
    case True
    from Cons.prems have "create_test_funcs grouped (cls(''test_prob'' @ format_02d k \<mapsto> sort g)) name = Some cq"
      using a True by simp
    from Cons.IH[OF this] show ?thesis using a True by (auto split: if_splits)
  next
    case False
    from Cons.prems have "create_test_funcs grouped cls name = Some cq"
      using a False by simp
    from Cons.IH[OF this] show ?thesis using a by auto
  qed
qed








lemma main_binds_compiled_solution:
  "main sorted_list_of_set [''cq'' \<mapsto> Dir [''Prob03.py'', ''Prob03.pyc'', ''Prob03.in.txt'']] ''cq''
     = Inr (create_test_funcs [(3, [''Prob03.in.txt'', ''Prob03.py'', ''Prob03.pyc''])] Map.empty)"
proof -
  have S: "get_cq_files [''cq'' \<mapsto> Dir [''Prob03.py'', ''Prob03.pyc'', ''Prob03.in.txt'']] ''cq''
           = Inr (set [''Prob03.in.txt'', ''Prob03.py'', ''Prob03.pyc''])"
    by (simp add: get_cq_files_def path_exists_def isdir_def listdir_def re_match_def REGEX_PATTERN_def
        numeral_2_eq_2 insert_commute)
  have L: "sorted_list_of_set (set [''Prob03.in.txt'', ''Prob03.py'', ''Prob03.pyc''])
           = [''Prob03.in.txt'', ''Prob03.py'', ''Prob03.pyc'']"
    by code_simp
  have G: "group_cq_files [''Prob03.in.txt'', ''Prob03.py'', ''Prob03.pyc'']
           = Inr [(3, [''Prob03.in.txt'', ''Prob03.py'', ''Prob03.pyc''])]"
    by code_simp
  show ?thesis by (simp only: main_def S L G sum.case)
qed

section \<open>The pipeline passes bare names\<close>

lemma get_cq_files_Inr_dir: "get_cq_files fs cwd = Inr S \<Longrightarrow> \<exists>es. fs cwd = Some (Dir es)"
  by (auto simp: get_cq_files_def isdir_def listdir_def split: if_splits option.splits node.splits)

lemma ancestors_no_slash: "CHR ''/'' \<notin> set p \<Longrightarrow> ancestors p = []"
proof -
  assume h: "CHR ''/'' \<notin> set p"
  have "filter (\<lambda>i. 0 < i \<and> p ! i = CHR ''/'') [0..<length p] = []"
  proof (rule filter_False, intro ballI)
    fix i assume "i \<in> set [0..<length p]"
    then have "p ! i \<in> set p" by simp
    with h show "\<not> (0 < i \<and> p ! i = CHR ''/'')" by auto
  qed
  then show ?thesis by (simp add: ancestors_def)
qed

lemma below_file_no_slash: "CHR ''/'' \<notin> set p \<Longrightarrow> \<not> below_file fs p"
  by (simp add: below_file_def ancestors_no_slash)

lemma set_update_subset: "set (AList.update k v al) \<subseteq> insert (k, v) (set al)"
  by (induction al) auto

lemma group_loop_files:
  "group_loop cq g = Inr g' \<Longrightarrow> (k, l) \<in> set g' \<Longrightarrow> f \<in> set l \<Longrightarrow>
   f \<in> set cq \<or> (\<exists>(k', l')\<in>set g. f \<in> set l')"
proof (induction cq arbitrary: g)
  case Nil
  then show ?case by auto
next
  case (Cons c cq)
  from Cons.prems(1) obtain n where n: "py_int (get_prob_num c) = Inr n"
    by (auto split: sum.splits)
  show ?case
  proof (cases "map_of g n")
    case None
    with Cons.prems(1) n have "group_loop cq (g @ [(n, [c])]) = Inr g'" by simp
    from Cons.IH[OF this Cons.prems(2,3)] show ?thesis by auto
  next
    case (Some l0)
    with Cons.prems(1) n have "group_loop cq (AList.update n (l0 @ [c]) g) = Inr g'" by simp
    from Cons.IH[OF this Cons.prems(2,3)]
    have "f \<in> set cq \<or> (\<exists>(k', l')\<in>set (AList.update n (l0 @ [c]) g). f \<in> set l')" .
    moreover have "set (AList.update n (l0 @ [c]) g) \<subseteq> insert (n, l0 @ [c]) (set g)"
      by (rule set_update_subset)
    moreover have "(n, l0) \<in> set g" using Some by (rule map_of_SomeD)
    ultimately show ?thesis by fastforce
  qed
qed

lemma main_files:
  assumes "main set_iter fs cwd = Inr cls" and "cls name = Some cq" and "f \<in> set cq"
    and "\<And>S. get_cq_files fs cwd = Inr S \<Longrightarrow> set (set_iter S) \<subseteq> S"
  shows "\<exists>es. fs cwd = Some (Dir es) \<and> f \<in> set es \<and> re_match REGEX_PATTERN f"
proof -
  from assms(1) obtain S grouped where
    S: "get_cq_files fs cwd = Inr S" and g: "group_cq_files (set_iter S) = Inr grouped"
    and cls: "cls = create_test_funcs grouped Map.empty"
    by (auto simp: main_def split: sum.splits)
  from S obtain es where es: "fs cwd = Some (Dir es)"
    using get_cq_files_Inr_dir[of fs cwd S] by blast
  then have Seq: "S = {f \<in> set es. re_match REGEX_PATTERN f}"
    using S get_cq_files_dir[of fs cwd es] by simp
  from ctf_only[of grouped Map.empty name cq] assms(2) cls
  obtain k l where kl: "(k, l) \<in> set grouped" "cq = sort l" by auto
  then have "f \<in> set l" using assms(3) by simp
  from group_loop_files[OF g[unfolded group_cq_files_def] kl(1) this]
  have "f \<in> set (set_iter S)" by simp
  then have "f \<in> S" using assms(4)[OF S] by auto
  then show ?thesis using es Seq by simp
qed

text \<open>
  C10. A test that \<open>main\<close> creates is bound to three names of the listing of the working
  directory. \<^verbatim>\<open>os.listdir\<close> returns names, which hold no \<^verbatim>\<open>/\<close>; so the input file and
  the solution file have the same, empty directory part, \<open>check_solution\<close> does not enter
  its branch for different directories, and it runs the solution under its bare name.
  The order in which Python iterates over a set is \<open>set_iter\<close>; it yields the elements of
  the set.
\<close>

theorem pipeline_never_stages:
  assumes "main set_iter fs cwd = Inr cls"
    and "cls name = Some [in_file, out_file, solution_file]"
    and "\<forall>S. finite S \<longrightarrow> set (set_iter S) = S"
    and "\<forall>es. fs cwd = Some (Dir es) \<longrightarrow> (\<forall>f\<in>set es. CHR ''/'' \<notin> set f)"
  shows "CHR ''/'' \<notin> set in_file \<and> CHR ''/'' \<notin> set solution_file
       \<and> dirname in_file = [] \<and> dirname solution_file = []
       \<and> check_solution e w in_file out_file solution_file =
           (case read_lines (files w) in_file of
              Inl x \<Rightarrow> (Inl x, w)
            | Inr in_contents \<Rightarrow>
                (case read_lines (files w) out_file of
                   Inl x \<Rightarrow> (Inl x, w)
                 | Inr expected_out \<Rightarrow> run_solution e w in_file solution_file expected_out))"
proof -
  have sub: "set (set_iter S) \<subseteq> S" if "get_cq_files fs cwd = Inr S" for S
  proof -
    from that obtain es where "fs cwd = Some (Dir es)"
      using get_cq_files_Inr_dir[of fs cwd S] by blast
    then have "S = {f \<in> set es. re_match REGEX_PATTERN f}"
      using that get_cq_files_dir[of fs cwd es] by simp
    then have "finite S" by simp
    then show ?thesis using assms(3) by simp
  qed
  have bare: "CHR ''/'' \<notin> set f" if "f \<in> set [in_file, out_file, solution_file]" for f
    using main_files[OF assms(1,2) that sub] assms(4) by auto
  have i: "CHR ''/'' \<notin> set in_file" and s: "CHR ''/'' \<notin> set solution_file"
    using bare by simp_all
  have d: "dirname in_file = []" "dirname solution_file = []"
    using i s by (simp_all add: dirname_no_slash)
  show ?thesis using i s d by (auto simp: check_solution_def split: sum.splits)
qed

theorem pipeline_never_stages_witness:
  "CHR ''/'' \<notin> set ''Prob03.in.txt'' \<and> CHR ''/'' \<notin> set ''Prob03.py''
   \<and> dirname ''Prob03.in.txt'' = [] \<and> dirname ''Prob03.py'' = []
   \<and> check_solution \<lparr>executable = ''python3'', proc = (\<lambda>fs c. (Encoded ''Right'', Encoded []))\<rparr>
        \<lparr>files = [''Prob03.in.txt'' \<mapsto> File ''3,4,5'', ''Prob03.out.txt'' \<mapsto> File ''Right''],
         temp_names = [], events = []\<rparr>
        ''Prob03.in.txt'' ''Prob03.out.txt'' ''Prob03.py''
      = run_solution \<lparr>executable = ''python3'', proc = (\<lambda>fs c. (Encoded ''Right'', Encoded []))\<rparr>
        \<lparr>files = [''Prob03.in.txt'' \<mapsto> File ''3,4,5'', ''Prob03.out.txt'' \<mapsto> File ''Right''],
         temp_names = [], events = []\<rparr>
        ''Prob03.in.txt'' ''Prob03.py'' [''Right'']"
proof -
  let ?fs = "[''cq'' \<mapsto> Dir [''Prob03.py'', ''notes.txt'', ''Prob03.in.txt'', ''Prob03.out.txt'']]"
  let ?grouped = "[(3::int, [''Prob03.in.txt'', ''Prob03.out.txt'', ''Prob03.py''])]"
  let ?e = "\<lparr>executable = ''python3'', proc = (\<lambda>fs c. (Encoded ''Right'', Encoded []))\<rparr>"
  let ?w = "\<lparr>files = [''Prob03.in.txt'' \<mapsto> File ''3,4,5'', ''Prob03.out.txt'' \<mapsto> File ''Right''],
         temp_names = [], events = []\<rparr>"
  have S: "get_cq_files ?fs ''cq'' = Inr (set [''Prob03.in.txt'', ''Prob03.out.txt'', ''Prob03.py''])"
    by (simp add: get_cq_files_def path_exists_def isdir_def listdir_def re_match_def REGEX_PATTERN_def
        numeral_2_eq_2 insert_commute)
  have L: "sorted_list_of_set (set [''Prob03.in.txt'', ''Prob03.out.txt'', ''Prob03.py''])
           = [''Prob03.in.txt'', ''Prob03.out.txt'', ''Prob03.py'']"
    by code_simp
  have G: "group_cq_files [''Prob03.in.txt'', ''Prob03.out.txt'', ''Prob03.py''] = Inr ?grouped"
    by code_simp
  have m: "main sorted_list_of_set ?fs ''cq'' = Inr (create_test_funcs ?grouped Map.empty)"
    by (simp only: main_def S L G sum.case)
  have f: "format_02d 3 = ''03''" by code_simp
  have so: "sort [''Prob03.in.txt'', ''Prob03.out.txt'', ''Prob03.py'']
            = [''Prob03.in.txt'', ''Prob03.out.txt'', ''Prob03.py'']" by code_simp
  have c: "create_test_funcs ?grouped Map.empty ''test_prob03''
           = Some [''Prob03.in.txt'', ''Prob03.out.txt'', ''Prob03.py'']"
    by (simp add: f so)
  have i: "\<forall>S::string set. finite S \<longrightarrow> set (sorted_list_of_set S) = S" by simp
  have l: "\<forall>es. ?fs ''cq'' = Some (Dir es) \<longrightarrow> (\<forall>f\<in>set es. CHR ''/'' \<notin> set f)" by simp
  have r1: "read_lines (files ?w) ''Prob03.in.txt'' = Inr [''3,4,5'']"
    by (simp add: read_lines_def open_read_def below_file_no_slash splitlines_def line_boundary_def)
  have r2: "read_lines (files ?w) ''Prob03.out.txt'' = Inr [''Right'']"
    by (simp add: read_lines_def open_read_def below_file_no_slash splitlines_def line_boundary_def)
  from pipeline_never_stages[OF m c i l, of ?e ?w]
  show ?thesis unfolding r1 r2 by simp
qed

section \<open>The verifier: divergence, staging and the error stream\<close>

lemma compare_AB_AC:
  "compare [''A\<newline>'', ''B\<newline>''] [''A\<newline>'', ''C\<newline>'']
     = [''  A\<newline>'', ''- B\<newline>'', ''+ C\<newline>'']"
  by code_simp

lemma compare_A_AB:
  "compare [''A\<newline>''] [''A\<newline>'', ''B\<newline>''] = [''  A\<newline>'', ''+ B\<newline>'']"
  by code_simp

lemma splitlines_AB: "splitlines (replace_str [CHR 0x0D] [] ''A\<newline>B\<newline>'') = [''A\<newline>'', ''B\<newline>'']"
  by code_simp

lemma splitlines_AC: "splitlines (replace_str [CHR 0x0D] [] ''A\<newline>C\<newline>'') = [''A\<newline>'', ''C\<newline>'']"
  by code_simp

lemma splitlines_A: "splitlines (replace_str [CHR 0x0D] [] ''A\<newline>'') = [''A\<newline>'']"
  by code_simp

lemma splitlines_AB': "splitlines ''A\<newline>B\<newline>'' = [''A\<newline>'', ''B\<newline>'']"
  by code_simp

lemma splitlines_AC': "splitlines ''A\<newline>C\<newline>'' = [''A\<newline>'', ''C\<newline>'']"
  by code_simp

lemma splitlines_A': "splitlines ''A\<newline>'' = [''A\<newline>'']"
  by code_simp

lemma error_file_01: "replace_str ''in'' ''error'' ''Prob01.in.txt'' = ''Prob01.error.txt''"
  by code_simp

lemma below_file_01:
  "below_file fs ''Prob01.in.txt'' = False" "below_file fs ''Prob01.out.txt'' = False"
  "below_file fs ''Prob01.error.txt'' = False"
proof -
  have "ancestors ''Prob01.in.txt'' = []" "ancestors ''Prob01.out.txt'' = []"
    "ancestors ''Prob01.error.txt'' = []"
    by code_simp+
  then show "below_file fs ''Prob01.in.txt'' = False" "below_file fs ''Prob01.out.txt'' = False"
    "below_file fs ''Prob01.error.txt'' = False"
    by (simp_all add: below_file_def)
qed

lemma dirname_01:
  "dirname ''Prob01.in.txt'' = []" "dirname ''Prob01.py'' = []" "dirname ''Prob01.error.txt'' = []"
  by code_simp+

text \<open>
  C1. The solution prints \<^verbatim>\<open>A\nB\n\<close> and the expected output is \<^verbatim>\<open>A\nC\n\<close>. The diff is
  \<^verbatim>\<open>"  A\n", "- B\n", "+ C\n"\<close>. At its second entry \<open>check_solution\<close> writes
  \<^verbatim>\<open>A\nB\n\<close> to \<^verbatim>\<open>Prob01.error.txt\<close>; then the second \<^verbatim>\<open>next(diffs)\<close> finds the
  generator exhausted, and the function ends with \<^verbatim>\<open>StopIteration\<close>, not with the
  \<^verbatim>\<open>AssertionError\<close> that names line 2 and the two lines.
\<close>

theorem check_solution_AB_AC:
  "check_solution \<lparr>executable = ''python3'', proc = (\<lambda>fs c. (Encoded ''A\<newline>B\<newline>'', Encoded []))\<rparr>
     \<lparr>files = [''Prob01.in.txt'' \<mapsto> File ''1'', ''Prob01.out.txt'' \<mapsto> File ''A\<newline>C\<newline>''],
      temp_names = [], events = []\<rparr>
     ''Prob01.in.txt'' ''Prob01.out.txt'' ''Prob01.py''
   = (Inl StopIteration,
      \<lparr>files = [''Prob01.in.txt'' \<mapsto> File ''1'', ''Prob01.out.txt'' \<mapsto> File ''A\<newline>C\<newline>'',
                ''Prob01.error.txt'' \<mapsto> File ''A\<newline>B\<newline>''],
       temp_names = [],
       events = [Spawn (command \<lparr>executable = ''python3'', proc = (\<lambda>fs c. (Encoded ''A\<newline>B\<newline>'', Encoded []))\<rparr> ''Prob01.py''),
                 WriteFile ''Prob01.error.txt'']\<rparr>)"
  by (simp add: check_solution_def read_lines_def open_read_def below_file_01 run_solution_def
      decode_def splitlines_AB' splitlines_AC' compare_AB_AC error_file_01 dirname_01
      startswith_def open_write_def Let_def)

text \<open>
  C4. The solution prints \<^verbatim>\<open>A\n\<close> and the expected output is \<^verbatim>\<open>A\nB\n\<close>, a pure
  insertion. The diff is \<^verbatim>\<open>"  A\n", "+ B\n"\<close>: nothing follows the entry that differs,
  and \<open>check_solution\<close> ends with \<^verbatim>\<open>StopIteration\<close>.
\<close>

theorem check_solution_insertion_crashes:
  "check_solution \<lparr>executable = ''python3'', proc = (\<lambda>fs c. (Encoded ''A\<newline>'', Encoded []))\<rparr>
     \<lparr>files = [''Prob01.in.txt'' \<mapsto> File ''1'', ''Prob01.out.txt'' \<mapsto> File ''A\<newline>B\<newline>''],
      temp_names = [], events = []\<rparr>
     ''Prob01.in.txt'' ''Prob01.out.txt'' ''Prob01.py''
   = (Inl StopIteration,
      \<lparr>files = [''Prob01.in.txt'' \<mapsto> File ''1'', ''Prob01.out.txt'' \<mapsto> File ''A\<newline>B\<newline>'',
                ''Prob01.error.txt'' \<mapsto> File ''A\<newline>''],
       temp_names = [],
       events = [Spawn (command \<lparr>executable = ''python3'', proc = (\<lambda>fs c. (Encoded ''A\<newline>'', Encoded []))\<rparr> ''Prob01.py''),
                 WriteFile ''Prob01.error.txt'']\<rparr>)"
  by (simp add: check_solution_def read_lines_def open_read_def below_file_01 run_solution_def
      decode_def splitlines_AB' splitlines_A' compare_A_AB error_file_01 dirname_01
      startswith_def open_write_def Let_def)

lemma mkdtemp_Inr:
  "mkdtemp fs ns = Inr (d, fs', ns') \<Longrightarrow> fs d = None \<and> fs' = fs(d \<mapsto> Dir [])"
  by (induction ns) (auto split: if_splits)

lemma copyfile_to_dir: "fs dst = Some (Dir es) \<Longrightarrow> \<exists>x. copyfile fs src dst = Inl x"
  by (auto simp: copyfile_def open_write_def split: sum.splits if_splits)

lemma stage_fails:
  "\<exists>x w' evs. stage w in_file out_file solution_file = (Inl x, w') \<and> events w' = events w @ evs
      \<and> (\<forall>c. Spawn c \<notin> set evs)"
proof (cases "mkdtemp (files w) (temp_names w)")
  case (Inl x)
  then show ?thesis by (simp add: stage_def)
next
  case (Inr r1)
  obtain tmpdir fs1 ns1 where r1: "r1 = (tmpdir, fs1, ns1)" by (cases r1) auto
  show ?thesis
  proof (cases "mkdtemp fs1 ns1")
    case (Inl x)
    then show ?thesis using Inr r1 by (simp add: stage_def)
  next
    case inner: (Inr r2)
    obtain tmpdirname fs2 ns2 where r2: "r2 = (tmpdirname, fs2, ns2)" by (cases r2) auto
    from mkdtemp_Inr[of fs1 ns1 tmpdirname fs2 ns2] inner r2
    have "fs2 tmpdirname = Some (Dir [])" by simp
    with copyfile_to_dir[of fs2 tmpdirname "[]" in_file]
    obtain x where "copyfile fs2 in_file tmpdirname = Inl x"
      by blast
    then show ?thesis using Inr r1 inner r2 by (simp add: stage_def Let_def)
  qed
qed

text \<open>
  C5. When the input file and the solution file have different directory parts,
  \<open>check_solution\<close> always ends with an error and starts no process: at the latest,
  \<^verbatim>\<open>shutil.copyfile\<close> fails, because its destination \<^verbatim>\<open>tmpdirname\<close> is a directory.
  \<open>staging_example\<close> below shows one such call in full.
\<close>

theorem staging_never_runs:
  assumes "dirname in_file \<noteq> dirname solution_file"
  shows "\<exists>x w' evs. check_solution e w in_file out_file solution_file = (Inl x, w')
           \<and> events w' = events w @ evs \<and> (\<forall>c. Spawn c \<notin> set evs)"
proof (cases "read_lines (files w) in_file")
  case (Inl x)
  then show ?thesis by (simp add: check_solution_def)
next
  case r1: (Inr a)
  show ?thesis
  proof (cases "read_lines (files w) out_file")
    case (Inl x)
    then show ?thesis using r1 by (simp add: check_solution_def)
  next
    case r2: (Inr b)
    from stage_fails[of w in_file out_file solution_file] obtain x w' evs where
      "stage w in_file out_file solution_file = (Inl x, w')" "events w' = events w @ evs"
      "\<forall>c. Spawn c \<notin> set evs"
      by blast
    then show ?thesis using r1 r2 assms by (simp add: check_solution_def)
  qed
qed

lemma staging_example:
  "check_solution e
     \<lparr>files = [''in/Prob01.in.txt'' \<mapsto> File ''1'', ''in/Prob01.out.txt'' \<mapsto> File ''A\<newline>''],
      temp_names = [''/tmp/tmp1'', ''/tmp/tmp2''], events = []\<rparr>
     ''in/Prob01.in.txt'' ''in/Prob01.out.txt'' ''sol/Prob01.py''
   = (Inl (IsADirectoryError ''/tmp/tmp2''),
      \<lparr>files = [''in/Prob01.in.txt'' \<mapsto> File ''1'', ''in/Prob01.out.txt'' \<mapsto> File ''A\<newline>'',
                ''/tmp/tmp1'' \<mapsto> Dir []],
       temp_names = [],
       events = [MkTemp ''/tmp/tmp1'', MkTemp ''/tmp/tmp2'', RmTemp ''/tmp/tmp2'']\<rparr>)"
proof -
  have d: "dirname ''in/Prob01.in.txt'' = ''in''" "dirname ''sol/Prob01.py'' = ''sol''"
    by code_simp+
  have rm: "rmtree [''in/Prob01.in.txt'' \<mapsto> File ''1'', ''in/Prob01.out.txt'' \<mapsto> File ''A\<newline>'',
                ''/tmp/tmp1'' \<mapsto> Dir [], ''/tmp/tmp2'' \<mapsto> Dir []] ''/tmp/tmp2''
            = [''in/Prob01.in.txt'' \<mapsto> File ''1'', ''in/Prob01.out.txt'' \<mapsto> File ''A\<newline>'',
                ''/tmp/tmp1'' \<mapsto> Dir []]"
    by (rule ext) (simp add: rmtree_def)
  have a: "ancestors ''in/Prob01.in.txt'' = [''in'']" "ancestors ''in/Prob01.out.txt'' = [''in'']"
    "ancestors ''/tmp/tmp2'' = [''/tmp'']"
    by code_simp+
  show ?thesis
    by (simp add: check_solution_def read_lines_def open_read_def below_file_def a d stage_def Let_def
        copyfile_def open_write_def rm)
qed

theorem staging_never_runs_witness:
  "\<exists>x w' evs. check_solution \<lparr>executable = ''python3'', proc = (\<lambda>fs c. (Encoded ''A\<newline>'', Encoded []))\<rparr>
     \<lparr>files = [''in/Prob01.in.txt'' \<mapsto> File ''1'', ''in/Prob01.out.txt'' \<mapsto> File ''A\<newline>''],
      temp_names = [''/tmp/tmp1'', ''/tmp/tmp2''], events = []\<rparr>
     ''in/Prob01.in.txt'' ''in/Prob01.out.txt'' ''sol/Prob01.py''
   = (Inl x, w') \<and> events w' = [] @ evs \<and> (\<forall>c. Spawn c \<notin> set evs)"
proof -
  have d: "dirname ''in/Prob01.in.txt'' \<noteq> dirname ''sol/Prob01.py''"
    by code_simp
  from staging_never_runs[OF d,
      of "\<lparr>executable = ''python3'', proc = (\<lambda>fs c. (Encoded ''A\<newline>'', Encoded []))\<rparr>"
         "\<lparr>files = [''in/Prob01.in.txt'' \<mapsto> File ''1'', ''in/Prob01.out.txt'' \<mapsto> File ''A\<newline>''],
           temp_names = [''/tmp/tmp1'', ''/tmp/tmp2''], events = []\<rparr>"
         "''in/Prob01.out.txt''"]
  show ?thesis by simp
qed

text \<open>
  C2. When the input and the expected output can be read, the input and the solution share
  their directory part, both streams of the process are UTF-8 text, and the text of the
  standard error is not empty, \<open>check_solution\<close> raises \<^verbatim>\<open>Exception\<close> with a message
  that holds that text. The result does not depend on the text of the standard output or
  on the expected output, and the file system is left as it was: nothing is compared and
  nothing is written.
\<close>

theorem stderr_precedence:
  assumes "read_lines (files w) in_file = Inr in_contents"
    and "read_lines (files w) out_file = Inr expected_out"
    and "dirname in_file = dirname solution_file"
    and "proc e (files w) (command e solution_file) = (Encoded out, Encoded err)"
    and "err \<noteq> []"
  shows "check_solution e w in_file out_file solution_file =
           (Inl (Exception (''An error occurred while executing '' @ [CHR 0x27]
                   @ basename solution_file @ [CHR 0x27] @ '': '' @ [CHR 0x27] @ err @ [CHR 0x27])),
            w\<lparr>events := events w @ [Spawn (command e solution_file)]\<rparr>)"
  using assms by (simp add: check_solution_def run_solution_def decode_def)

theorem stderr_precedence_witness:
  "check_solution \<lparr>executable = ''python3'', proc = (\<lambda>fs c. (Encoded ''A\<newline>'', Encoded ''Traceback''))\<rparr>
     \<lparr>files = [''Prob01.in.txt'' \<mapsto> File ''1'', ''Prob01.out.txt'' \<mapsto> File ''A\<newline>''],
      temp_names = [], events = []\<rparr>
     ''Prob01.in.txt'' ''Prob01.out.txt'' ''Prob01.py''
   = (Inl (Exception (''An error occurred while executing '' @ [CHR 0x27]
                   @ ''Prob01.py'' @ [CHR 0x27] @ '': '' @ [CHR 0x27] @ ''Traceback'' @ [CHR 0x27])),
      \<lparr>files = [''Prob01.in.txt'' \<mapsto> File ''1'', ''Prob01.out.txt'' \<mapsto> File ''A\<newline>''],
       temp_names = [],
       events = [Spawn (command \<lparr>executable = ''python3'', proc = (\<lambda>fs c. (Encoded ''A\<newline>'', Encoded ''Traceback''))\<rparr> ''Prob01.py'')]\<rparr>)"
proof -
  let ?e = "\<lparr>executable = ''python3'', proc = (\<lambda>fs c. (Encoded ''A\<newline>'', Encoded ''Traceback''))\<rparr>"
  let ?w = "\<lparr>files = [''Prob01.in.txt'' \<mapsto> File ''1'', ''Prob01.out.txt'' \<mapsto> File ''A\<newline>''],
      temp_names = [], events = []\<rparr>"
  have r1: "read_lines (files ?w) ''Prob01.in.txt'' = Inr [''1'']"
    by (simp add: read_lines_def open_read_def below_file_01 splitlines_def)
  have r2: "read_lines (files ?w) ''Prob01.out.txt'' = Inr [''A\<newline>'']"
    by (simp add: read_lines_def open_read_def below_file_01 splitlines_A')
  have d: "dirname ''Prob01.in.txt'' = dirname ''Prob01.py''" by (simp add: dirname_01)
  have p: "proc ?e (files ?w) (command ?e ''Prob01.py'') = (Encoded ''A\<newline>'', Encoded ''Traceback'')"
    by simp
  have b: "basename ''Prob01.py'' = ''Prob01.py''" by code_simp
  from stderr_precedence[OF r1 r2 d p] show ?thesis by (simp add: b)
qed

text \<open>
  C2 as the specification states it, for every run with text on the standard error, does
  not hold. Here the process writes \<^verbatim>\<open>Traceback\<close> to its standard error and bytes that
  are no UTF-8 text to its standard output. The standard output is decoded first, and
  \<open>check_solution\<close> ends with \<^verbatim>\<open>UnicodeDecodeError\<close>, not with the \<^verbatim>\<open>Exception\<close>
  that holds the error text.
\<close>

theorem stderr_precedence_counterexample:
  "check_solution \<lparr>executable = ''python3'', proc = (\<lambda>fs c. (Malformed, Encoded ''Traceback''))\<rparr>
     \<lparr>files = [''Prob01.in.txt'' \<mapsto> File ''1'', ''Prob01.out.txt'' \<mapsto> File ''A\<newline>''],
      temp_names = [], events = []\<rparr>
     ''Prob01.in.txt'' ''Prob01.out.txt'' ''Prob01.py''
   = (Inl UnicodeDecodeError,
      \<lparr>files = [''Prob01.in.txt'' \<mapsto> File ''1'', ''Prob01.out.txt'' \<mapsto> File ''A\<newline>''],
       temp_names = [],
       events = [Spawn (command \<lparr>executable = ''python3'', proc = (\<lambda>fs c. (Malformed, Encoded ''Traceback''))\<rparr> ''Prob01.py'')]\<rparr>)"
  by (simp add: check_solution_def read_lines_def open_read_def below_file_01 run_solution_def
      decode_def splitlines_def splitlines_A' dirname_01)

section \<open>The verifier: equal output\<close>

lemma run_len_le: "run_len a i \<le> i + 1"
  by (induction i) auto

lemma run_len_pos: "\<not> popular a (a ! i) \<Longrightarrow> 1 \<le> run_len a i"
  by (cases i) auto

lemma run_len_pop: "popular a (a ! i) \<Longrightarrow> run_len a i = 0"
  by (cases i) auto

lemma get_bounds:
  assumes "prev_inv a i m" and "\<not> popular a (a ! i)" and "a ! j = a ! i"
  shows "j2len_get m j + 1 \<le> run_len a i \<and> j2len_get m j + 1 \<le> run_len a j"
proof (cases j)
  case 0
  then show ?thesis using assms(2,3) run_len_pos[of a i] by (simp add: j2len_get_def)
next
  case (Suc j')
  have npj: "\<not> popular a (a ! j)" using assms(2,3) by simp
  show ?thesis
  proof (cases "m j'")
    case None
    then show ?thesis using Suc run_len_pos[OF assms(2)] run_len_pos[OF npj]
      by (simp add: j2len_get_def)
  next
    case (Some v)
    then obtain i' where i: "i = Suc i'" and r: "row_inv a i' m"
      using assms(1) by (cases i) (auto simp: prev_inv_def)
    from r Some have "v \<le> run_len a i'" "v \<le> run_len a j'"
      by (auto simp: row_inv_def)
    then show ?thesis using Suc Some i assms(2) npj by (simp add: j2len_get_def)
  qed
qed

lemma get_diag:
  assumes "prev_inv a i m" and "\<not> popular a (a ! i)"
  shows "j2len_get m i + 1 = run_len a i"
proof (cases i)
  case 0
  then show ?thesis using assms(2) by (simp add: j2len_get_def)
next
  case (Suc i')
  then have r: "row_inv a i' m" using assms(1) by (simp add: prev_inv_def)
  show ?thesis
  proof (cases "popular a (a ! i')")
    case True
    then have "m = Map.empty" using r by (simp add: row_inv_def)
    then show ?thesis using Suc True assms(2) run_len_pop[OF True] by (simp add: j2len_get_def)
  next
    case False
    then have "m i' = Some (run_len a i')" using r by (simp add: row_inv_def)
    then show ?thesis using Suc assms(2) by (simp add: j2len_get_def)
  qed
qed

lemma j_loop_fst:
  assumes "\<forall>j\<in>set js. j < bhi"
  shows "fst (j_loop 0 bhi i m js (new, best)) =
           (\<lambda>k. if k \<in> set js then Some (j2len_get m k + 1) else new k)"
  using assms
proof (induction js arbitrary: new best)
  case Nil
  then show ?case by simp
next
  case (Cons j js)
  obtain bi bj bs where best: "best = (bi, bj, bs)" by (cases best) auto
  have j: "j < bhi" and rest: "\<forall>j\<in>set js. j < bhi" using Cons.prems by auto
  have "fst (j_loop 0 bhi i m (j # js) (new, best)) =
        fst (j_loop 0 bhi i m js (new(j \<mapsto> j2len_get m j + 1),
               if bs < j2len_get m j + 1 then (i + 1 - (j2len_get m j + 1), j + 1 - (j2len_get m j + 1), j2len_get m j + 1)
               else (bi, bj, bs)))"
    using j best by (simp add: Let_def)
  also have "\<dots> = (\<lambda>k. if k \<in> set js then Some (j2len_get m k + 1) else (new(j \<mapsto> j2len_get m j + 1)) k)"
    by (rule Cons.IH[OF rest])
  also have "\<dots> = (\<lambda>k. if k \<in> set (j # js) then Some (j2len_get m k + 1) else new k)"
    by (rule ext) auto
  finally show ?case .
qed

lemma j_loop_append:
  assumes "\<forall>j\<in>set xs. j < bhi"
  shows "j_loop blo bhi i m (xs @ ys) st = j_loop blo bhi i m ys (j_loop blo bhi i m xs st)"
  using assms
proof (induction xs arbitrary: st)
  case Nil
  then show ?case by simp
next
  case (Cons j xs)
  obtain new bi bj bs where st: "st = (new, bi, bj, bs)" by (cases st) auto
  have rest: "\<forall>j\<in>set xs. j < bhi" and j: "\<not> bhi \<le> j" using Cons.prems by auto
  show ?case
    unfolding st using Cons.IH[OF rest] j by (simp add: Let_def)
qed

lemma j_loop_noupd:
  assumes "\<forall>j\<in>set js. j < bhi \<and> j2len_get m j + 1 \<le> bs"
  shows "snd (j_loop 0 bhi i m js (new, (bi, bj, bs))) = (bi, bj, bs)"
  using assms
proof (induction js arbitrary: new)
  case Nil
  then show ?case by simp
next
  case (Cons j js)
  have j: "j < bhi" "\<not> bs < j2len_get m j + 1" and rest: "\<forall>j\<in>set js. j < bhi \<and> j2len_get m j + 1 \<le> bs"
    using Cons.prems by auto
  show ?case using Cons.IH[OF rest] j by (simp add: Let_def)
qed

lemma j_loop_single:
  assumes "j < bhi"
  shows "snd (j_loop 0 bhi i m [j] (new, (bi, bj, bs))) =
           (if bs < j2len_get m j + 1
            then (i + 1 - (j2len_get m j + 1), j + 1 - (j2len_get m j + 1), j2len_get m j + 1)
            else (bi, bj, bs))"
  using assms by (simp add: Let_def)

lemma indices_split:
  assumes "i < n"
  shows "[j \<leftarrow> [0..<n]. a ! j = a ! i] =
           [j \<leftarrow> [0..<i]. a ! j = a ! i] @ [i] @ [j \<leftarrow> [Suc i..<n]. a ! j = a ! i]"
proof -
  have "[0..<n] = [0..<i] @ [i] @ [Suc i..<n]"
    using assms by (metis append_Cons append_Nil le_add1 less_imp_add_positive upt_add_eq_append upt_conv_Cons
        less_or_eq_imp_le plus_nat.add_0 upt_rec)
  then show ?thesis by simp
qed

lemma row_step:
  assumes p: "prev_inv a i m" and b: "best_inv a i best" and i: "i < length a"
    and st: "j_loop 0 (length a) i m (b2j a (a ! i)) (Map.empty, best) = (m', best')"
  shows "row_inv a i m' \<and> best_inv a (Suc i) best'"
proof (cases "popular a (a ! i)")
  case True
  then have "m' = Map.empty" "best' = best" using st by (simp_all add: b2j_def)
  moreover have "best_inv a (Suc i) best"
    using b run_len_pop[OF True] by (auto simp: best_inv_def less_Suc_eq)
  ultimately show ?thesis using True by (simp add: row_inv_def)
next
  case False
  let ?n = "length a"
  let ?js1 = "[j \<leftarrow> [0..<i]. a ! j = a ! i]"
  let ?js2 = "[j \<leftarrow> [Suc i..<?n]. a ! j = a ! i]"
  let ?js = "[j \<leftarrow> [0..<?n]. a ! j = a ! i]"
  obtain bi bj bs where best: "best = (bi, bj, bs)" by (cases best) auto
  have js: "b2j a (a ! i) = ?js" using False by (simp add: b2j_def)
  have split: "?js = ?js1 @ [i] @ ?js2" by (rule indices_split[OF i])
  have lt: "\<forall>j\<in>set ?js. j < ?n" by simp
  have k: "j2len_get m j + 1 \<le> run_len a i \<and> j2len_get m j + 1 \<le> run_len a j" if "j \<in> set ?js" for j
    using get_bounds[OF p False, of j] that by simp
  have kd: "j2len_get m i + 1 = run_len a i" by (rule get_diag[OF p False])
  \<comment> \<open>the new row\<close>
  have m': "m' = (\<lambda>k. if k \<in> set ?js then Some (j2len_get m k + 1) else None)"
    using j_loop_fst[OF lt, of i m Map.empty best] st js by simp
  have "i \<in> set ?js" using i by simp
  then have r: "row_inv a i m'"
    using False k kd by (auto simp: row_inv_def m')
  \<comment> \<open>the best match\<close>
  have lt1: "\<forall>j\<in>set ?js1. j < ?n" using i by auto
  have s1: "snd (j_loop 0 ?n i m ?js1 (Map.empty, best)) = best"
  proof -
    have "\<forall>j\<in>set ?js1. j < ?n \<and> j2len_get m j + 1 \<le> bs"
    proof
      fix j assume j: "j \<in> set ?js1"
      then have ji: "j < i" and "j \<in> set ?js" using i by auto
      then have "j2len_get m j + 1 \<le> run_len a j" using k by blast
      moreover have "run_len a j \<le> bs" using b best ji by (simp add: best_inv_def)
      ultimately show "j < ?n \<and> j2len_get m j + 1 \<le> bs" using ji i by simp
    qed
    from j_loop_noupd[OF this] show ?thesis unfolding best .
  qed
  define best1 where "best1 = (if bs < run_len a i then (i + 1 - run_len a i, i + 1 - run_len a i, run_len a i) else (bi, bj, bs))"
  obtain new1 where st1: "j_loop 0 ?n i m ?js1 (Map.empty, best) = (new1, best)"
    using s1 by (cases "j_loop 0 ?n i m ?js1 (Map.empty, best)") auto
  have s2: "snd (j_loop 0 ?n i m [i] (new1, best)) = best1"
    unfolding best best1_def by (rule j_loop_single[OF i, of i m new1 bi bj bs, unfolded kd])
  obtain new2 where st2: "j_loop 0 ?n i m [i] (new1, best) = (new2, best1)"
    using s2 by (cases "j_loop 0 ?n i m [i] (new1, best)") auto
  obtain b1i b1j b1s where b1: "best1 = (b1i, b1j, b1s)" by (cases best1) auto
  have b1s: "run_len a i \<le> b1s" "bs \<le> b1s"
    using b1 by (auto simp: best1_def split: if_splits)
  have s3: "snd (j_loop 0 ?n i m ?js2 (new2, best1)) = best1"
  proof -
    have "\<forall>j\<in>set ?js2. j < ?n \<and> j2len_get m j + 1 \<le> b1s"
    proof
      fix j assume j: "j \<in> set ?js2"
      then have "j \<in> set ?js" by auto
      then have "j2len_get m j + 1 \<le> run_len a i" using k by blast
      then show "j < ?n \<and> j2len_get m j + 1 \<le> b1s" using b1s j by auto
    qed
    from j_loop_noupd[OF this] show ?thesis unfolding b1 .
  qed
  have a1: "j_loop 0 ?n i m (?js1 @ ([i] @ ?js2)) (Map.empty, best) =
            j_loop 0 ?n i m ([i] @ ?js2) (j_loop 0 ?n i m ?js1 (Map.empty, best))"
    by (rule j_loop_append[OF lt1])
  have a2: "j_loop 0 ?n i m ([i] @ ?js2) x = j_loop 0 ?n i m ?js2 (j_loop 0 ?n i m [i] x)" for x
    by (rule j_loop_append) (use i in simp)
  have "j_loop 0 ?n i m ?js (Map.empty, best) =
        j_loop 0 ?n i m ?js2 (j_loop 0 ?n i m [i] (j_loop 0 ?n i m ?js1 (Map.empty, best)))"
    unfolding split a1 a2 ..
  then have "best' = best1" using st js st1 st2 s3 by simp
  moreover have "best_inv a (Suc i) best1"
  proof -
    have "run_len a i \<le> i + 1" by (rule run_len_le)
    then show ?thesis
      using b best by (auto simp: best_inv_def best1_def less_Suc_eq)
  qed
  ultimately show ?thesis using r by simp
qed

lemma i_loop_diag:
  assumes "prev_inv a i0 m" and "best_inv a i0 best" and "i0 \<le> length a"
  shows "best_inv a (length a) (i_loop a a 0 (length a) [i0..<length a] (m, best))"
  using assms
proof (induction "length a - i0" arbitrary: i0 m best)
  case 0
  then show ?case by simp
next
  case (Suc d)
  then have lt: "i0 < length a" by simp
  obtain m' best' where st: "j_loop 0 (length a) i0 m (b2j a (a ! i0)) (Map.empty, best) = (m', best')"
    by (cases "j_loop 0 (length a) i0 m (b2j a (a ! i0)) (Map.empty, best)") auto
  from row_step[OF Suc.prems(1,2) lt st]
  have r: "row_inv a i0 m'" and b: "best_inv a (Suc i0) best'" by simp_all
  have p: "prev_inv a (Suc i0) m'" using r by (simp add: prev_inv_def)
  have "best_inv a (length a) (i_loop a a 0 (length a) [Suc i0..<length a] (m', best'))"
    using Suc.hyps(1)[OF _ p b] Suc.hyps(2) lt by simp
  then show ?case using st lt by (simp add: upt_conv_Cons)
qed

lemma extend_left_diag: "extend_left a a 0 0 (b, b, s) = (0, 0, s + b)"
proof (induction b arbitrary: s)
  case 0
  show ?case by (subst extend_left.simps) simp
next
  case (Suc b)
  show ?case by (subst extend_left.simps) (simp add: Suc.IH)
qed

lemma extend_right_diag: "s \<le> n \<Longrightarrow> extend_right a a n n (0, 0, s) = (0, 0, n)"
proof (induction "n - s" arbitrary: s)
  case 0
  then show ?case by (subst extend_right.simps) simp
next
  case (Suc d)
  then have "extend_right a a n n (0, 0, s + 1) = (0, 0, n)" by simp
  moreover have "s < n" using Suc.hyps(2) by simp
  ultimately show ?case by (subst extend_right.simps) simp
qed

lemma find_longest_match_same:
  "find_longest_match a a 0 (length a) 0 (length a) = (0, 0, length a)"
proof -
  have "prev_inv a 0 Map.empty" by (simp add: prev_inv_def)
  moreover have "best_inv a 0 (0, 0, 0)" by (simp add: best_inv_def)
  ultimately have "best_inv a (length a) (i_loop a a 0 (length a) [0..<length a] (Map.empty, (0, 0, 0)))"
    by (intro i_loop_diag) simp_all
  then obtain b s where r: "i_loop a a 0 (length a) [0..<length a] (Map.empty, (0, 0, 0)) = (b, b, s)"
    and le: "b + s \<le> length a"
    by (cases "i_loop a a 0 (length a) [0..<length a] (Map.empty, (0, 0, 0))") (auto simp: best_inv_def)
  show ?thesis
    unfolding find_longest_match_def r extend_left_diag
    using le by (simp add: extend_right_diag)
qed

lemma get_opcodes_same:
  "get_opcodes a a = (if a = [] then [] else [(Equal, 0, length a, 0, length a)])"
proof (cases "a = []")
  case True
  have "find_longest_match a a 0 0 0 0 = (0, 0, 0)"
    using find_longest_match_same[of a] True by simp
  then have "mb_loop a a [(0, 0, 0, 0)] [] = []" by (simp add: mb_loop.simps)
  then show ?thesis using True by (simp add: get_opcodes_def get_matching_blocks_def)
next
  case False
  then have "mb_loop a a [(0, length a, 0, length a)] [] = [(0, 0, length a)]"
    using find_longest_match_same[of a] by (simp add: mb_loop.simps)
  then show ?thesis using False by (simp add: get_opcodes_def get_matching_blocks_def)
qed

lemma compare_same: "compare a a = map (\<lambda>l. ''  '' @ l) a"
proof (cases "a = []")
  case True
  then show ?thesis by (simp add: compare_def get_opcodes_same)
next
  case False
  have "map (\<lambda>i. ''  '' @ a ! i) [0..<length a] = map (\<lambda>l. ''  '' @ l) a"
    by (rule nth_equalityI) simp_all
  then show ?thesis using False by (simp add: compare_def get_opcodes_same dump_def)
qed

lemma diff_loop_same:
  "diff_loop w in_file solution_file out line_no (map (\<lambda>l. CHR '' '' # CHR '' '' # l) xs) = (Inr (), w)"
  by (induction xs arbitrary: line_no) (simp_all add: startswith_def)

text \<open>
  C3. When the input and the expected output can be read, the input and the solution share
  their directory part, the process writes nothing to its standard error, and the text of
  its standard output, without carriage returns and split into lines, is the list of lines read from the
  expected-output file, \<open>check_solution\<close> returns \<^verbatim>\<open>None\<close>. The world afterwards
  differs only by the record of the process: no file is written.
\<close>

theorem matching_output_succeeds:
  assumes "read_lines (files w) in_file = Inr in_contents"
    and "read_lines (files w) out_file = Inr expected_out"
    and "dirname in_file = dirname solution_file"
    and "proc e (files w) (command e solution_file) = (Encoded out, Encoded [])"
    and "splitlines (replace_str [CHR 0x0D] [] out) = expected_out"
  shows "check_solution e w in_file out_file solution_file =
           (Inr (), w\<lparr>events := events w @ [Spawn (command e solution_file)]\<rparr>)"
  using assms by (simp add: check_solution_def run_solution_def decode_def compare_same diff_loop_same)

theorem matching_output_succeeds_witness:
  "check_solution
     \<lparr>executable = ''python3'',
      proc = (\<lambda>fs c. (Encoded [CHR ''A'', CHR 0x0D, CHR 0x0A, CHR ''B'', CHR 0x0A], Encoded []))\<rparr>
     \<lparr>files = [''Prob01.in.txt'' \<mapsto> File ''1'', ''Prob01.out.txt'' \<mapsto> File ''A\<newline>B\<newline>''],
      temp_names = [], events = []\<rparr>
     ''Prob01.in.txt'' ''Prob01.out.txt'' ''Prob01.py''
   = (Inr (),
      \<lparr>files = [''Prob01.in.txt'' \<mapsto> File ''1'', ''Prob01.out.txt'' \<mapsto> File ''A\<newline>B\<newline>''],
       temp_names = [],
       events = [Spawn (command \<lparr>executable = ''python3'',
                   proc = (\<lambda>fs c. (Encoded [CHR ''A'', CHR 0x0D, CHR 0x0A, CHR ''B'', CHR 0x0A], Encoded []))\<rparr> ''Prob01.py'')]\<rparr>)"
proof -
  let ?e = "\<lparr>executable = ''python3'',
      proc = (\<lambda>fs c. (Encoded [CHR ''A'', CHR 0x0D, CHR 0x0A, CHR ''B'', CHR 0x0A], Encoded []))\<rparr>"
  let ?w = "\<lparr>files = [''Prob01.in.txt'' \<mapsto> File ''1'', ''Prob01.out.txt'' \<mapsto> File ''A\<newline>B\<newline>''],
      temp_names = [], events = []\<rparr>"
  have r1: "read_lines (files ?w) ''Prob01.in.txt'' = Inr [''1'']"
    by (simp add: read_lines_def open_read_def below_file_01 splitlines_def)
  have r2: "read_lines (files ?w) ''Prob01.out.txt'' = Inr [''A\<newline>'', ''B\<newline>'']"
    by (simp add: read_lines_def open_read_def below_file_01 splitlines_AB')
  have d: "dirname ''Prob01.in.txt'' = dirname ''Prob01.py''" by (simp add: dirname_01)
  have p: "proc ?e (files ?w) (command ?e ''Prob01.py'')
           = (Encoded [CHR ''A'', CHR 0x0D, CHR 0x0A, CHR ''B'', CHR 0x0A], Encoded [])"
    by simp
  have s: "splitlines (replace_str [CHR 0x0D] [] [CHR ''A'', CHR 0x0D, CHR 0x0A, CHR ''B'', CHR 0x0A])
           = [''A\<newline>'', ''B\<newline>'']"
    by code_simp
  from matching_output_succeeds[OF r1 r2 d p s] show ?thesis by simp
qed

section \<open>Further properties\<close>

lemma concat_splitlines_from: "concat (splitlines_from cur s) = cur @ s"
  by (induction cur s rule: splitlines_from.induct) auto

text \<open>
  X1. Joining the lines of a text gives the text back: the file that \<open>diff_loop\<close> writes
  holds the standard output of the solution, without its carriage returns and otherwise
  unchanged.
\<close>

theorem join_splitlines: "concat (splitlines s) = s"
  by (simp add: splitlines_def concat_splitlines_from)

text \<open>
  X2. The diff of a list of lines with itself marks every line as unchanged, whatever the
  lines are and however often they repeat.
\<close>

theorem compare_equal_lists: "compare a a = map (\<lambda>l. ''  '' @ l) a"
  by (rule compare_same)

lemma diff_loop_skip:
  "\<forall>d\<in>set pre. startswith d '' '' \<Longrightarrow>
   diff_loop w in_file solution_file out line_no (pre @ rest)
     = diff_loop w in_file solution_file out (line_no + length pre) rest"
  by (induction pre arbitrary: line_no) simp_all

text \<open>
  X3. What \<open>diff_loop\<close> does at the first entry \<open>d\<close> of the diff that does not start
  with a space, when the output file can be written: it writes the file, and it raises
  \<^verbatim>\<open>AssertionError\<close> with the line number and the two entries after \<open>d\<close> when there
  are two, and \<^verbatim>\<open>StopIteration\<close> when there are fewer.
\<close>

theorem diff_loop_divergence:
  assumes "\<forall>d\<in>set pre. startswith d '' ''"
    and "\<not> startswith d '' ''"
    and "open_write (files w) (replace_str ''in'' ''error'' in_file) (concat out) = Inr fs'"
  shows "diff_loop w in_file solution_file out line_no (pre @ d # post) =
           (if 2 \<le> length post
            then Inl (AssertionError (basename solution_file) (line_no + length pre) d
                        (replace_str '' '' ''^'' (post ! 0)) (replace_str '' '' ''^'' (post ! 1))
                        (replace_str ''in'' ''error'' in_file))
            else Inl StopIteration,
            w\<lparr>files := fs', events := events w @ [WriteFile (replace_str ''in'' ''error'' in_file)]\<rparr>)"
proof -
  have "diff_loop w in_file solution_file out line_no (pre @ d # post)
        = diff_loop w in_file solution_file out (line_no + length pre) (d # post)"
    by (rule diff_loop_skip[OF assms(1)])
  also have "\<dots> = (if 2 \<le> length post
            then Inl (AssertionError (basename solution_file) (line_no + length pre) d
                        (replace_str '' '' ''^'' (post ! 0)) (replace_str '' '' ''^'' (post ! 1))
                        (replace_str ''in'' ''error'' in_file))
            else Inl StopIteration,
            w\<lparr>files := fs', events := events w @ [WriteFile (replace_str ''in'' ''error'' in_file)]\<rparr>)"
  proof (cases post)
    case Nil
    then show ?thesis using assms(2,3) by (simp add: Let_def)
  next
    case (Cons d1 post')
    then show ?thesis using assms(2,3) by (cases post') (simp_all add: Let_def)
  qed
  finally show ?thesis .
qed

theorem diff_loop_divergence_witness:
  "diff_loop \<lparr>files = Map.empty, temp_names = [], events = []\<rparr> ''Prob01.in.txt'' ''Prob01.py''
     [''abcd\<newline>''] 1 [''- abcd\<newline>'', ''?    ^\<newline>'', ''+ abce\<newline>'', ''?    ^\<newline>'']
   = (Inl (AssertionError ''Prob01.py'' 1 ''- abcd\<newline>'' ''?^^^^^\<newline>'' ''+^abce\<newline>'' ''Prob01.error.txt''),
      \<lparr>files = [''Prob01.error.txt'' \<mapsto> File ''abcd\<newline>''], temp_names = [],
       events = [WriteFile ''Prob01.error.txt'']\<rparr>)"
proof -
  let ?w = "\<lparr>files = Map.empty, temp_names = [], events = []\<rparr>"
  have 1: "\<forall>d\<in>set ([]::string list). startswith d '' ''" by simp
  have 2: "\<not> startswith ''- abcd\<newline>'' '' ''" by (simp add: startswith_def)
  have 3: "open_write (files ?w) (replace_str ''in'' ''error'' ''Prob01.in.txt'') (concat [''abcd\<newline>''])
           = Inr [''Prob01.error.txt'' \<mapsto> File ''abcd\<newline>'']"
    by (simp add: open_write_def below_file_01 error_file_01 dirname_01)
  have b: "basename ''Prob01.py'' = ''Prob01.py''" by code_simp
  have r: "replace_str '' '' ''^'' ''?    ^\<newline>'' = ''?^^^^^\<newline>''"
    "replace_str '' '' ''^'' ''+ abce\<newline>'' = ''+^abce\<newline>''" by code_simp+
  from diff_loop_divergence[OF 1 2 3, of "''Prob01.py''" 1 "[''?    ^\<newline>'', ''+ abce\<newline>'', ''?    ^\<newline>'']"]
  show ?thesis by (simp add: b r error_file_01)
qed

lemma matched_num:
  assumes "re_match REGEX_PATTERN f" and "CHR ''/'' \<notin> set f"
  shows "\<exists>n. py_int (get_prob_num f) = Inr n \<and> 0 \<le> n \<and> n < 100"
proof -
  from assms(1) obtain c d r where cd: "is_digit c" "is_digit d" and f: "\<exists>ext. f = ''Prob'' @ [c, d] @ ext"
    unfolding re_match_pattern by blast
  have "basename f = f" by (rule basename_no_slash[OF assms(2)])
  then have "get_prob_num f = [c, d]" using f by (auto simp: get_prob_num_def)
  moreover have "digit_val c < 10" "digit_val d < 10"
    using cd by (auto simp: is_digit_def digit_val_def)
  ultimately show ?thesis using py_int_two_digits[OF cd] by simp
qed

text \<open>
  X4. On a directory that can be listed \<open>main\<close> does not raise: every name that discovery keeps has two
  digits after \<^verbatim>\<open>Prob\<close>, so \<^verbatim>\<open>int\<close> never fails in \<open>group_cq_files\<close>.
\<close>

theorem main_never_value_error:
  assumes "fs cwd = Some (Dir es)"
    and "\<forall>f\<in>set es. CHR ''/'' \<notin> set f"
    and "\<forall>S. finite S \<longrightarrow> set (set_iter S) = S"
  shows "\<exists>cls. main set_iter fs cwd = Inr cls"
proof -
  let ?S = "{f \<in> set es. re_match REGEX_PATTERN f}"
  have S: "get_cq_files fs cwd = Inr ?S" using get_cq_files_dir[of fs cwd es] assms(1) by simp
  have it: "set (set_iter ?S) = ?S" using assms(3) by simp
  define num where "num = (\<lambda>f. case py_int (get_prob_num f) of Inr n \<Rightarrow> n | Inl e \<Rightarrow> 0)"
  have "\<forall>f\<in>set (set_iter ?S). py_int (get_prob_num f) = Inr (num f)"
  proof
    fix f assume "f \<in> set (set_iter ?S)"
    then have "re_match REGEX_PATTERN f" "CHR ''/'' \<notin> set f" using it assms(2) by auto
    from matched_num[OF this] show "py_int (get_prob_num f) = Inr (num f)"
      by (auto simp: num_def)
  qed
  from group_loop_spec[OF this, of "[]"] obtain g where "group_loop (set_iter ?S) [] = Inr g"
    by auto
  then show ?thesis using S by (simp add: main_def group_cq_files_def)
qed

theorem main_never_value_error_witness:
  "\<exists>cls. main sorted_list_of_set [''cq'' \<mapsto> Dir [''Prob03.pyc'', ''Prob03.py'', ''x'']] ''cq'' = Inr cls"
proof -
  let ?fs = "[''cq'' \<mapsto> Dir [''Prob03.pyc'', ''Prob03.py'', ''x'']]"
  have 1: "?fs ''cq'' = Some (Dir [''Prob03.pyc'', ''Prob03.py'', ''x''])" by simp
  have 2: "\<forall>f\<in>set [''Prob03.pyc'', ''Prob03.py'', ''x'']. CHR ''/'' \<notin> set f" by simp
  have 3: "\<forall>S::string set. finite S \<longrightarrow> set (sorted_list_of_set S) = S" by simp
  show ?thesis
    using main_never_value_error[of ?fs "''cq''" "[''Prob03.pyc'', ''Prob03.py'', ''x'']" sorted_list_of_set] 1 2 3
    by blast
qed

end
